theory Spec2Isabelle
  imports Main "HOL-Library.AList" "HOL-Library.Char_ord" "HOL-Library.List_Lexorder"
    "HOL-Library.Sublist"
begin

section \<open>The chat server of \<^verbatim>\<open>server.py\<close>\<close>

text \<open>
  The server keeps three module-level containers (\<^verbatim>\<open>USERS\<close>, \<^verbatim>\<open>USERNAMES\<close>,
  \<^verbatim>\<open>ROOMS\<close>) and one directory of per-room log files. Every coroutine of the server is
  embedded as a function that takes the state and returns the messages it sends together
  with the new state.

  Conventions of the embedding:
  \<^item> a connection object (\<^verbatim>\<open>ws\<close>) is its identity, a natural number;
  \<^item> text is \<open>string\<close>; a character stands for the code point of the same number, so the
    embedding covers text with code points below 256, and \<open>isalnum\<close>, \<open>isspace\<close> are
    Python's classification of these code points;
  \<^item> a coroutine is one step, from its call to its return. In the source the event loop
    can run another connection's handler while a send is awaited; every check of a
    container and the update that depends on it lie between two such points, so the
    states of the containers that occur are the ones these steps produce when a request
    that names several rooms is taken as several requests. The properties of states
    below hold for them; the properties of the messages sent are stated for a handler
    that runs without another one in between;
  \<^item> \<^verbatim>\<open>json.dumps\<close> and \<^verbatim>\<open>json.loads\<close> are not embedded: a log file is the list of
    its lines, each line given by what \<^verbatim>\<open>json.loads(line.strip())\<close> makes of it, and a
    line written by \<^verbatim>\<open>append_room_log\<close> decodes to the record that was written.
\<close>

subsection \<open>Text\<close>

definition isspace :: "char \<Rightarrow> bool" where
  "isspace c = (of_char c \<in> {9, 10, 11, 12, 13, 28, 29, 30, 31, 32, 133, 160 :: nat})"

definition isalnum :: "char \<Rightarrow> bool" where
  "isalnum c =
     (let n = (of_char c :: nat)
      in (48 \<le> n \<and> n \<le> 57) \<or> (65 \<le> n \<and> n \<le> 90) \<or> (97 \<le> n \<and> n \<le> 122)
         \<or> n \<in> {170, 178, 179, 181, 185, 186, 188, 189, 190}
         \<or> (192 \<le> n \<and> n \<le> 214) \<or> (216 \<le> n \<and> n \<le> 246) \<or> 248 \<le> n)"

text \<open>\<^verbatim>\<open>s.strip()\<close>: leading and trailing whitespace removed.\<close>

definition strip :: "string \<Rightarrow> string" where
  "strip s = rev (dropWhile isspace (rev (dropWhile isspace s)))"

text \<open>\<^verbatim>\<open>xs[i:]\<close>: a negative start counts from the end, and a start before the first
  element is the first element.\<close>

definition slice_from :: "int \<Rightarrow> 'a list \<Rightarrow> 'a list" where
  "slice_from i xs =
     (if i < 0 then drop (nat (int (length xs) + i)) xs else drop (nat i) xs)"

subsection \<open>Decoded JSON\<close>

text \<open>
  A value of a decoded request, as far as the handlers look at it. A string is its text.
  Any other value carries the text that Python's \<^verbatim>\<open>str()\<close> gives for it (the handlers
  apply \<^verbatim>\<open>str()\<close> to room names and messages); an array has its elements, an object its
  keys (what a \<^verbatim>\<open>for\<close> loop over it yields), and \<open>JAtom\<close> is \<^verbatim>\<open>null\<close>, a boolean or a number
  with its truth value.
\<close>

datatype jval =
    JStr string
  | JList "jval list" string
  | JDict "string list" string
  | JAtom bool string

fun py_str :: "jval \<Rightarrow> string" where
  "py_str (JStr s) = s"
| "py_str (JList xs img) = img"
| "py_str (JDict ks img) = img"
| "py_str (JAtom b img) = img"

fun truthy :: "jval \<Rightarrow> bool" where
  "truthy (JStr s) = (s \<noteq> [])"
| "truthy (JList xs img) = (xs \<noteq> [])"
| "truthy (JDict ks img) = (ks \<noteq> [])"
| "truthy (JAtom b img) = b"

fun is_list :: "jval \<Rightarrow> bool" where
  "is_list (JList xs img) = True"
| "is_list v = False"

fun list_items :: "jval \<Rightarrow> jval list" where
  "list_items (JList xs img) = xs"
| "list_items v = []"

text \<open>Lists and dictionaries are not hashable: using one as a dictionary key raises.\<close>

fun hashable :: "jval \<Rightarrow> bool" where
  "hashable (JStr s) = True"
| "hashable (JAtom b img) = True"
| "hashable v = False"

text \<open>What a \<^verbatim>\<open>for\<close> loop over the value yields; \<open>None\<close> when the value is not iterable.\<close>

fun py_iter :: "jval \<Rightarrow> jval list option" where
  "py_iter (JStr s) = Some (map (\<lambda>c. JStr [c]) s)"
| "py_iter (JList xs img) = Some xs"
| "py_iter (JDict ks img) = Some (map JStr ks)"
| "py_iter (JAtom b img) = None"

text \<open>\<^verbatim>\<open>data.get("rooms") or []\<close>\<close>

definition or_empty_list :: "jval option \<Rightarrow> jval" where
  "or_empty_list v =
     (case v of None \<Rightarrow> JList [] ''[]''
      | Some x \<Rightarrow> if truthy x then x else JList [] ''[]'')"

text \<open>\<^verbatim>\<open>data.get(key, "")\<close>\<close>

definition get_or_blank :: "(string \<rightharpoonup> jval) \<Rightarrow> string \<Rightarrow> jval" where
  "get_or_blank data key = (case data key of None \<Rightarrow> JStr [] | Some x \<Rightarrow> x)"

subsection \<open>Messages, events and the state\<close>

type_synonym conn = nat

text \<open>The record of a published message (its keys \<^verbatim>\<open>room\<close>, \<^verbatim>\<open>username\<close>,
  \<^verbatim>\<open>message\<close>, \<^verbatim>\<open>ts\<close>); the user name is \<^verbatim>\<open>USERS.get(ws)\<close>, which is
  \<^verbatim>\<open>None\<close> for a connection that has not logged in.\<close>

record message =
  msg_room :: string
  msg_username :: "string option"
  msg_message :: string
  msg_ts :: int

datatype payload =
    Error "string option" string
  | Ok string
  | Subscribed "string list"
  | Unsubscribed "string list"
  | Join string string
  | Leave string string
  | Room_update string "string list"
  | History string "message list"
  | Message message

datatype exn = AttributeError | TypeError | OSError | ValueError | RecursionError

text \<open>
  What a coroutine does to the outside: \<open>Send ws p\<close> is \<^verbatim>\<open>send(ws, p)\<close>, \<open>Gather T p\<close> is
  the \<^verbatim>\<open>asyncio.gather\<close> of \<^verbatim>\<open>broadcast\<close> that sends \<open>p\<close> to every connection of the
  non-empty set \<open>T\<close>, and \<open>Print e\<close> is the line the handler prints for an unexpected
  exception.
\<close>

datatype event = Send conn payload | Gather "conn set" payload | Print exn

text \<open>
  A line of a log file, by what \<^verbatim>\<open>tail_room_log\<close> does with it: blank after
  \<^verbatim>\<open>strip()\<close>; rejected by \<^verbatim>\<open>json.loads\<close> with \<^verbatim>\<open>JSONDecodeError\<close>, which the loop
  catches; a line on which \<^verbatim>\<open>json.loads\<close> raises another exception, which nothing in
  \<^verbatim>\<open>tail_room_log\<close> catches (\<^verbatim>\<open>RecursionError\<close> for deep nesting, \<^verbatim>\<open>ValueError\<close> for a
  number with too many digits); or decoded. A line that decodes holds a message record,
  the only thing the server writes.
\<close>

datatype log_line = Blank_line | Malformed_line | Raising_line exn | Json_line message

text \<open>
  \<open>LOG_DIR\<close> maps a file name to the lines of the file; \<open>read_fails\<close> and \<open>write_fails\<close>
  tell for which files opening or reading (writing) raises. \<open>stat_fails\<close> tells for which
  names \<^verbatim>\<open>exists()\<close> raises instead of answering: the names the file system refuses, as
  one that is too long. Such a name has no file, so the flag is asked where there is none.
\<close>

record server =
  USERS :: "conn \<rightharpoonup> string"
  USERNAMES :: "string set"
  ROOMS :: "(string \<times> conn set) list"
  LOG_DIR :: "string \<rightharpoonup> log_line list"
  stat_fails :: "string \<Rightarrow> bool"
  read_fails :: "string \<Rightarrow> bool"
  write_fails :: "string \<Rightarrow> bool"

subsection \<open>Utilities\<close>

definition log_path_for :: "string \<Rightarrow> string" where
  "log_path_for room =
     filter (\<lambda>c. isalnum c \<or> c \<in> {CHR ''-'', CHR ''_''}) room @ ''.txt''"

definition append_room_log :: "string \<Rightarrow> message \<Rightarrow> server \<Rightarrow> exn + server" where
  "append_room_log room record s =
     (let p = log_path_for room
      in if write_fails s p then Inl OSError
         else Inr (s\<lparr>LOG_DIR := (LOG_DIR s)
                (p \<mapsto> (case LOG_DIR s p of None \<Rightarrow> [] | Some ls \<Rightarrow> ls) @ [Json_line record])\<rparr>))"

text \<open>The loop of \<^verbatim>\<open>tail_room_log\<close> over the lines: an exception that is not caught ends
  it and the records collected so far are lost.\<close>

fun decode_lines :: "log_line list \<Rightarrow> exn + message list" where
  "decode_lines [] = Inr []"
| "decode_lines (Blank_line # ls) = decode_lines ls"
| "decode_lines (Malformed_line # ls) = decode_lines ls"
| "decode_lines (Raising_line e # ls) = Inl e"
| "decode_lines (Json_line m # ls) =
     (case decode_lines ls of Inl e \<Rightarrow> Inl e | Inr out \<Rightarrow> Inr (m # out))"

text \<open>\<^verbatim>\<open>p.exists()\<close> is called outside the \<^verbatim>\<open>try\<close>; a failure to open or read the file is
  caught and gives the empty list (the line printed then is left out).\<close>

definition tail_room_log :: "string \<Rightarrow> int \<Rightarrow> server \<Rightarrow> exn + message list" where
  "tail_room_log room n s =
     (let p = log_path_for room
      in case LOG_DIR s p of
           None \<Rightarrow> if stat_fails s p then Inl OSError else Inr []
         | Some lines \<Rightarrow>
             if read_fails s p then Inr []
             else decode_lines (slice_from (- n) lines))"

text \<open>\<^verbatim>\<open>ROOMS.get(room, set())\<close>\<close>

definition subscribers_of :: "(string \<times> conn set) list \<Rightarrow> string \<Rightarrow> conn set" where
  "subscribers_of rooms r = (case map_of rooms r of None \<Rightarrow> {} | Some subs \<Rightarrow> subs)"

definition broadcast :: "string \<Rightarrow> payload \<Rightarrow> conn option \<Rightarrow> server \<Rightarrow> event list" where
  "broadcast r p except_ws s =
     (let targets = subscribers_of (ROOMS s) r;
          targets = (case except_ws of None \<Rightarrow> targets | Some ws \<Rightarrow> targets - {ws})
      in if targets = {} then [] else [Gather targets p])"

text \<open>\<^verbatim>\<open>sorted([USERS[ws] for ws in subscribers if ws in USERS])\<close>; the order in which the
  set is walked does not show after sorting.\<close>

definition user_list :: "(conn \<rightharpoonup> string) \<Rightarrow> conn set \<Rightarrow> string list" where
  "user_list users subscribers = sort (List.map_filter users (sorted_list_of_set subscribers))"

definition broadcast_room_update :: "string \<Rightarrow> server \<Rightarrow> event list" where
  "broadcast_room_update r s =
     (let subscribers = subscribers_of (ROOMS s) r
      in if subscribers = {} then []
         else broadcast r (Room_update r (user_list (USERS s) subscribers)) None s)"

subsection \<open>The handlers of the actions\<close>

text \<open>A handler returns the exception it raised, if any, the events and the state.\<close>

definition handle_login ::
  "conn \<Rightarrow> (string \<rightharpoonup> jval) \<Rightarrow> server \<Rightarrow> exn option \<times> event list \<times> server" where
  "handle_login ws data s =
     (case get_or_blank data ''username'' of
        JStr u \<Rightarrow>
          (let name = strip u
           in if name = [] then
                (None, [Send ws (Error (Some ''login'') ''Username required'')], s)
              else if name \<in> USERNAMES s then
                (None, [Send ws (Error (Some ''login'') ''Username taken'')], s)
              else
                (None, [Send ws (Ok ''login'')],
                 s\<lparr>USERS := (USERS s)(ws \<mapsto> name), USERNAMES := insert name (USERNAMES s)\<rparr>))
      | _ \<Rightarrow> (Some AttributeError, [], s))"

text \<open>The first loop of \<^verbatim>\<open>handle_subscribe\<close>; it returns the events, the list
  \<^verbatim>\<open>newly_subscribed_rooms\<close> and the state.\<close>

fun subscribe_loop ::
  "conn \<Rightarrow> string \<Rightarrow> jval list \<Rightarrow> server \<Rightarrow> event list \<times> string list \<times> server" where
  "subscribe_loop ws name [] s = ([], [], s)"
| "subscribe_loop ws name (room_str # rest) s =
     (let r = strip (py_str room_str)
      in if r = [] then subscribe_loop ws name rest s
         else
           let is_new_sub = (ws \<notin> subscribers_of (ROOMS s) r);
               s' = s\<lparr>ROOMS := AList.update r (insert ws (subscribers_of (ROOMS s) r)) (ROOMS s)\<rparr>;
               evs = (if is_new_sub then broadcast r (Join r name) (Some ws) s' else []);
               (evs', newly, s'') = subscribe_loop ws name rest s'
           in (evs @ evs', r # newly, s''))"

text \<open>The body of the second loop of \<^verbatim>\<open>handle_subscribe\<close>, and the loop: an exception
  of \<^verbatim>\<open>tail_room_log\<close> ends it after what has been sent for the rooms before.\<close>

definition replay :: "conn \<Rightarrow> server \<Rightarrow> string \<Rightarrow> exn + event list" where
  "replay ws s r =
     (case tail_room_log r 50 s of
        Inl e \<Rightarrow> Inl e
      | Inr history \<Rightarrow>
          Inr ((if history \<noteq> [] then [Send ws (History r history)] else [])
               @ broadcast_room_update r s))"

fun replay_loop :: "conn \<Rightarrow> server \<Rightarrow> string list \<Rightarrow> exn option \<times> event list" where
  "replay_loop ws s [] = (None, [])"
| "replay_loop ws s (r # rs) =
     (case replay ws s r of
        Inl e \<Rightarrow> (Some e, [])
      | Inr evs \<Rightarrow> (case replay_loop ws s rs of (e, evs') \<Rightarrow> (e, evs @ evs')))"

definition handle_subscribe ::
  "conn \<Rightarrow> (string \<rightharpoonup> jval) \<Rightarrow> server \<Rightarrow> exn option \<times> event list \<times> server" where
  "handle_subscribe ws data s =
     (let rooms = or_empty_list (data ''rooms'')
      in if \<not> is_list rooms \<or> \<not> truthy rooms then
           (None, [Send ws (Error (Some ''subscribe'') ''rooms list required'')], s)
         else
           case USERS s ws of
             None \<Rightarrow> (None, [], s)
           | Some name \<Rightarrow>
               if name = [] then (None, [], s)
               else
                 let (evs, newly_subscribed_rooms, s') =
                       subscribe_loop ws name (list_items rooms) s;
                     (e, evs') = replay_loop ws s' newly_subscribed_rooms
                 in (e,
                     evs
                     @ (if newly_subscribed_rooms \<noteq> []
                        then [Send ws (Subscribed newly_subscribed_rooms)] else [])
                     @ evs',
                     s'))"

text \<open>\<^verbatim>\<open>ROOMS.get(room)\<close> for a hashable key: only a string is ever a key.\<close>

fun rooms_get :: "(string \<times> conn set) list \<Rightarrow> jval \<Rightarrow> conn set option" where
  "rooms_get rooms (JStr r) = map_of rooms r"
| "rooms_get rooms v = None"

text \<open>The loop of \<^verbatim>\<open>handle_unsubscribe\<close>; it returns the exception, the events, the list
  \<^verbatim>\<open>unsubscribed_rooms\<close> and the state.\<close>

fun unsubscribe_loop ::
  "conn \<Rightarrow> string \<Rightarrow> jval list \<Rightarrow> server
    \<Rightarrow> exn option \<times> event list \<times> string list \<times> server" where
  "unsubscribe_loop ws name [] s = (None, [], [], s)"
| "unsubscribe_loop ws name (room_v # rest) s =
     (if \<not> hashable room_v then (Some TypeError, [], [], s)
      else
        case rooms_get (ROOMS s) room_v of
          None \<Rightarrow> unsubscribe_loop ws name rest s
        | Some subs \<Rightarrow>
            if subs \<noteq> {} \<and> ws \<in> subs then
              let r = py_str room_v;
                  subs' = subs - {ws};
                  s' = s\<lparr>ROOMS := (if subs' = {} then AList.delete r (ROOMS s)
                                    else AList.update r subs' (ROOMS s))\<rparr>;
                  evs = broadcast r (Leave r name) None s' @ broadcast_room_update r s';
                  (e, evs', unsubscribed, s'') = unsubscribe_loop ws name rest s'
              in (e, evs @ evs', r # unsubscribed, s'')
            else unsubscribe_loop ws name rest s)"

definition handle_unsubscribe ::
  "conn \<Rightarrow> (string \<rightharpoonup> jval) \<Rightarrow> server \<Rightarrow> exn option \<times> event list \<times> server" where
  "handle_unsubscribe ws data s =
     (let rooms_to_unsub = or_empty_list (data ''rooms'')
      in case USERS s ws of
           None \<Rightarrow> (None, [], s)
         | Some name \<Rightarrow>
             (if name = [] then (None, [], s)
              else
                (case py_iter rooms_to_unsub of
                   None \<Rightarrow> (Some TypeError, [], s)
                 | Some items \<Rightarrow>
                     (let (e, evs, unsubscribed_rooms, s') = unsubscribe_loop ws name items s
                      in if e \<noteq> None then (e, evs, s')
                         else
                           (None,
                            evs @ (if unsubscribed_rooms \<noteq> []
                                   then [Send ws (Unsubscribed unsubscribed_rooms)] else []),
                            s')))))"

text \<open>\<open>now\<close> is \<^verbatim>\<open>int(time.time())\<close> at the call.\<close>

definition handle_publish ::
  "conn \<Rightarrow> (string \<rightharpoonup> jval) \<Rightarrow> int \<Rightarrow> server \<Rightarrow> exn option \<times> event list \<times> server" where
  "handle_publish ws data now s =
     (let name = USERS s ws;
          r = strip (py_str (get_or_blank data ''room''));
          msg = strip (py_str (get_or_blank data ''message''))
      in if r = [] \<or> msg = [] then
           (None, [Send ws (Error (Some ''publish'') ''room and message required'')], s)
         else
           let record = \<lparr>msg_room = r, msg_username = name, msg_message = msg, msg_ts = now\<rparr>
           in case append_room_log r record s of
                Inl e \<Rightarrow> (Some e, [], s)
              | Inr s' \<Rightarrow> (None, broadcast r (Message record) None s', s'))"

text \<open>The loop of \<^verbatim>\<open>disconnect\<close> over the snapshot \<^verbatim>\<open>list(ROOMS.items())\<close>: the set of
  a room is the object that the dictionary holds, so discarding from it changes the
  dictionary's entry.\<close>

fun leave_rooms ::
  "conn \<Rightarrow> (string \<times> conn set) list \<Rightarrow> (string \<times> conn set) list
    \<Rightarrow> string list \<times> (string \<times> conn set) list" where
  "leave_rooms ws [] rooms = ([], rooms)"
| "leave_rooms ws ((r, subs) # items) rooms =
     (if ws \<in> subs then
        let subs' = subs - {ws};
            rooms' = (if subs' = {} then AList.delete r rooms else AList.update r subs' rooms);
            (rooms_left, rooms'') = leave_rooms ws items rooms'
        in (r # rooms_left, rooms'')
      else leave_rooms ws items rooms)"

definition disconnect :: "conn \<Rightarrow> server \<Rightarrow> event list \<times> server" where
  "disconnect ws s =
     (case USERS s ws of
        None \<Rightarrow> ([], s)
      | Some name \<Rightarrow>
          let s1 = s\<lparr>USERS := (USERS s)(ws := None)\<rparr>
          in if name = [] then ([], s1)
             else
               let s2 = s1\<lparr>USERNAMES := USERNAMES s1 - {name}\<rparr>;
                   (rooms_left, rooms') = leave_rooms ws (ROOMS s2) (ROOMS s2);
                   s3 = s2\<lparr>ROOMS := rooms'\<rparr>
               in (concat (map (\<lambda>r. broadcast r (Leave r name) None s3
                                      @ broadcast_room_update r s3) rooms_left),
                   s3))"

subsection \<open>The session handler\<close>

text \<open>
  An incoming frame: \<open>Invalid\<close> is text that \<^verbatim>\<open>json.loads\<close> rejects with
  \<^verbatim>\<open>JSONDecodeError\<close> or that decodes to something without \<^verbatim>\<open>get\<close> (not an object), the
  two exceptions the loop catches; \<open>Fatal e\<close> is a frame on which \<^verbatim>\<open>json.loads\<close> raises
  another exception (\<^verbatim>\<open>RecursionError\<close> for deep nesting, \<^verbatim>\<open>ValueError\<close> for a number with
  too many digits or for bytes that are not UTF-8), which leaves the loop; \<open>Data\<close> is a
  decoded object.
\<close>

datatype incoming = Invalid | Fatal exn | Data "string \<rightharpoonup> jval"

text \<open>How one turn of the loop of \<^verbatim>\<open>handler\<close> ends: with the next frame, by
  \<^verbatim>\<open>break\<close>, or by an exception that leaves the loop.\<close>

datatype flow = Continue | Break | Raise exn

definition after :: "exn option \<times> event list \<times> server \<Rightarrow> flow \<times> event list \<times> server" where
  "after res = (case res of (None, evs, s) \<Rightarrow> (Continue, evs, s)
                | (Some e, evs, s) \<Rightarrow> (Raise e, evs, s))"

definition action_text :: "jval option \<Rightarrow> string" where
  "action_text a = (case a of None \<Rightarrow> ''None'' | Some v \<Rightarrow> py_str v)"

definition handler_step ::
  "conn \<Rightarrow> incoming \<Rightarrow> int \<Rightarrow> server \<Rightarrow> flow \<times> event list \<times> server" where
  "handler_step ws raw now s =
     (case raw of
        Invalid \<Rightarrow> (Continue, [Send ws (Error None ''Invalid JSON message format'')], s)
      | Fatal e \<Rightarrow> (Raise e, [], s)
      | Data data \<Rightarrow>
          let action = data ''action''
          in if action \<noteq> Some (JStr ''login'') \<and> USERS s ws = None then
               (Continue, [Send ws (Error None ''Authentication required. Please log in.'')], s)
             else if action = Some (JStr ''login'') then
               (if USERS s ws \<noteq> None then
                  (Continue, [Send ws (Error (Some ''login'') ''You are already logged in'')], s)
                else after (handle_login ws data s))
             else if action = Some (JStr ''subscribe'') then
               after (handle_subscribe ws data s)
             else if action = Some (JStr ''unsubscribe'') then
               after (handle_unsubscribe ws data s)
             else if action = Some (JStr ''publish'') then
               after (handle_publish ws data now s)
             else if action = Some (JStr ''logout'') then (Break, [], s)
             else
               (Continue,
                [Send ws (Error None (''Unknown action: '' @ [CHR 0x27] @ action_text action
                                       @ [CHR 0x27]))], s))"

text \<open>The loop over the frames that arrive before the transport closes, each with the
  clock's reading when it is handled. The end of the list is the closed connection.\<close>

fun handler_loop :: "conn \<Rightarrow> (incoming \<times> int) list \<Rightarrow> server \<Rightarrow> event list \<times> server" where
  "handler_loop ws [] s = ([], s)"
| "handler_loop ws ((raw, now) # frames) s =
     (case handler_step ws raw now s of
        (Continue, evs, s') \<Rightarrow>
          (let (evs', s'') = handler_loop ws frames s' in (evs @ evs', s''))
      | (Break, evs, s') \<Rightarrow> (evs, s')
      | (Raise e, evs, s') \<Rightarrow> (evs @ [Print e], s'))"

definition handler :: "conn \<Rightarrow> (incoming \<times> int) list \<Rightarrow> server \<Rightarrow> event list \<times> server" where
  "handler ws frames s =
     (let (evs, s') = handler_loop ws frames s;
          (evs', s'') = disconnect ws s'
      in (evs @ evs', s''))"

text \<open>The server starts with empty containers, whatever the log directory holds.\<close>

definition start ::
  "(string \<rightharpoonup> log_line list) \<Rightarrow> (string \<Rightarrow> bool) \<Rightarrow> (string \<Rightarrow> bool) \<Rightarrow> (string \<Rightarrow> bool)
    \<Rightarrow> server" where
  "start logs sfail rfail wfail =
     \<lparr>USERS = Map.empty, USERNAMES = {}, ROOMS = [], LOG_DIR = logs,
      stat_fails = sfail, read_fails = rfail, write_fails = wfail\<rparr>"

text \<open>
  The states the server can be in: any connection may deliver a frame to its handler,
  any connection's handler may end (its \<^verbatim>\<open>finally\<close> block runs \<^verbatim>\<open>disconnect\<close>), and the
  file system may start or stop failing. A connection is not stopped from sending after
  its handler has ended, so these are at least the states of the running server.
\<close>

inductive reachable :: "server \<Rightarrow> bool" where
  boot: "reachable (start logs sfail rfail wfail)"
| frame: "reachable s \<Longrightarrow> handler_step ws raw now s = (fl, evs, s') \<Longrightarrow> reachable s'"
| closed: "reachable s \<Longrightarrow> disconnect ws s = (evs, s') \<Longrightarrow> reachable s'"
| weather: "reachable s
    \<Longrightarrow> reachable (s\<lparr>stat_fails := sfail, read_fails := rfail, write_fails := wfail\<rparr>)"

subsection \<open>Observations used to state the properties\<close>

text \<open>The payloads that reach one connection, in the order of the events.\<close>

fun inbox :: "conn \<Rightarrow> event list \<Rightarrow> payload list" where
  "inbox w [] = []"
| "inbox w (Send ws p # evs) = (if ws = w then p # inbox w evs else inbox w evs)"
| "inbox w (Gather targets p # evs) = (if w \<in> targets then p # inbox w evs else inbox w evs)"
| "inbox w (Print e # evs) = inbox w evs"

fun is_history :: "payload \<Rightarrow> bool" where
  "is_history (History r ms) = True"
| "is_history p = False"

text \<open>The lines on which \<^verbatim>\<open>json.loads\<close> raises an exception that is not caught.\<close>

fun raising :: "log_line \<Rightarrow> bool" where
  "raising (Raising_line e) = True"
| "raising l = False"

text \<open>The rooms of the directory that hold a connection, in the directory's order.\<close>

definition rooms_of :: "conn \<Rightarrow> server \<Rightarrow> string list" where
  "rooms_of ws s = map fst (filter (\<lambda>(r, subs). ws \<in> subs) (ROOMS s))"

text \<open>The properties of the containers that the handlers keep.\<close>

definition no_empty_room :: "server \<Rightarrow> bool" where
  "no_empty_room s = list_all (\<lambda>(r, subs). subs \<noteq> {}) (ROOMS s)"

definition names_given :: "server \<Rightarrow> bool" where
  "names_given s = (\<forall>ws u. USERS s ws = Some u \<longrightarrow> u \<noteq> [])"

definition registry_ok :: "server \<Rightarrow> bool" where
  "registry_ok s = (USERNAMES s = ran (USERS s) \<and> inj_on (USERS s) (dom (USERS s)))"

definition rooms_ok :: "server \<Rightarrow> bool" where
  "rooms_ok s =
     (distinct (map fst (ROOMS s))
      \<and> list_all (\<lambda>(r, subs). subs \<noteq> {} \<and> subs \<subseteq> dom (USERS s)) (ROOMS s))"

text \<open>A publish request, and a run of publish requests to one room, one after the other;
  each is a connection, the message text and the clock's reading.\<close>

definition publish_request :: "string \<Rightarrow> string \<Rightarrow> string \<rightharpoonup> jval" where
  "publish_request r text =
     [''action'' \<mapsto> JStr ''publish'', ''room'' \<mapsto> JStr r, ''message'' \<mapsto> JStr text]"

fun publish_all :: "string \<Rightarrow> (conn \<times> string \<times> int) list \<Rightarrow> server \<Rightarrow> server" where
  "publish_all r [] s = s"
| "publish_all r ((ws, text, now) # ps) s =
     publish_all r ps (snd (snd (handler_step ws (Data (publish_request r text)) now s)))"

definition published :: "string \<Rightarrow> server \<Rightarrow> conn \<times> string \<times> int \<Rightarrow> message" where
  "published r s p =
     (case p of (ws, text, now) \<Rightarrow>
        \<lparr>msg_room = strip r, msg_username = USERS s ws, msg_message = strip text, msg_ts = now\<rparr>)"

definition subscribe_request :: "string list \<Rightarrow> string \<rightharpoonup> jval" where
  "subscribe_request rs =
     [''action'' \<mapsto> JStr ''subscribe'', ''rooms'' \<mapsto> JList (map JStr rs) ''[...]'']"

definition unsubscribe_request :: "string list \<Rightarrow> string \<rightharpoonup> jval" where
  "unsubscribe_request rs =
     [''action'' \<mapsto> JStr ''unsubscribe'', ''rooms'' \<mapsto> JList (map JStr rs) ''[...]'']"

definition login_request :: "string \<Rightarrow> string \<rightharpoonup> jval" where
  "login_request u = [''action'' \<mapsto> JStr ''login'', ''username'' \<mapsto> JStr u]"

text \<open>One turn of the loop of \<^verbatim>\<open>handle_unsubscribe\<close> that removes the connection.\<close>

definition leave_one :: "conn \<Rightarrow> string \<Rightarrow> conn set \<Rightarrow> server \<Rightarrow> server" where
  "leave_one ws r subs s =
     s\<lparr>ROOMS := (if subs - {ws} = {} then AList.delete r (ROOMS s)
                  else AList.update r (subs - {ws}) (ROOMS s))\<rparr>"

text \<open>The directory after a connection has been taken out of every room: the rooms it
  was alone in are gone.\<close>

definition without :: "conn \<Rightarrow> (string \<times> conn set) list \<Rightarrow> (string \<times> conn set) list" where
  "without ws rooms = map (\<lambda>(r, subs). (r, subs - {ws})) (filter (\<lambda>(r, subs). subs \<noteq> {ws}) rooms)"

text \<open>The three properties together.\<close>

definition consistent :: "server \<Rightarrow> bool" where
  "consistent s = (names_given s \<and> registry_ok s \<and> rooms_ok s)"

subsection \<open>Concrete states\<close>

definition hello :: message where
  "hello = \<lparr>msg_room = ''general'', msg_username = Some ''bob'', msg_message = ''hello'',
            msg_ts = 1700000000\<rparr>"

text \<open>alice (connection 1) and bob (connection 2) are logged in, bob is in the room
  general, whose log holds one message.\<close>

definition lobby :: server where
  "lobby =
     \<lparr>USERS = [1 \<mapsto> ''alice'', 2 \<mapsto> ''bob''], USERNAMES = {''alice'', ''bob''},
      ROOMS = [(''general'', {2})], LOG_DIR = [''general.txt'' \<mapsto> [Json_line hello]],
      stat_fails = (\<lambda>p. False), read_fails = (\<lambda>p. False), write_fails = (\<lambda>p. False)\<rparr>"

text \<open>The same after alice has subscribed to general.\<close>

definition both_in :: server where
  "both_in = lobby\<lparr>ROOMS := [(''general'', {1, 2})]\<rparr>"

text \<open>The same with a log directory that cannot be written.\<close>

definition disk_full :: server where
  "disk_full = both_in\<lparr>write_fails := (\<lambda>p. True)\<rparr>"

text \<open>The same with a log directory that cannot be read.\<close>

definition unreadable :: server where
  "unreadable = both_in\<lparr>read_fails := (\<lambda>p. True)\<rparr>"

text \<open>The lobby with a longer log of general: 51 messages of bob, with the clock readings 0
  to 50, and after them a line that is not JSON, as a write that was cut off leaves it.\<close>

definition greeting :: "nat \<Rightarrow> message" where
  "greeting i = \<lparr>msg_room = ''general'', msg_username = Some ''bob'', msg_message = ''hello'',
             msg_ts = int i\<rparr>"

definition torn :: server where
  "torn = lobby\<lparr>LOG_DIR := [''general.txt'' \<mapsto>
            map (\<lambda>i. Json_line (greeting i)) [0..<51] @ [Malformed_line]]\<rparr>"

text \<open>The lobby with a log of general whose second line is a number of 5000 digits.\<close>

definition digits :: server where
  "digits = lobby\<lparr>LOG_DIR := [''general.txt'' \<mapsto>
              [Json_line hello, Raising_line ValueError]]\<rparr>"

text \<open>The lobby on a file system that refuses names of more than 255 characters, and a
  room name of 300 letters.\<close>

definition picky :: server where
  "picky = lobby\<lparr>stat_fails := (\<lambda>p. 255 < length p)\<rparr>"

definition long_name :: string where
  "long_name = replicate 300 (CHR ''a'')"

section \<open>Properties\<close>

lemmas req_defs = publish_request_def subscribe_request_def unsubscribe_request_def
  login_request_def

lemmas txt_defs = strip_def isspace_def log_path_for_def isalnum_def

lemmas demo_defs = lobby_def both_in_def disk_full_def unreadable_def hello_def

lemma inbox_append: "inbox w (xs @ ys) = inbox w xs @ inbox w ys"
  by (induction w xs rule: inbox.induct) auto

subsection \<open>The gate before login\<close>

text \<open>
  C3. A connection without an entry in \<open>USERS\<close> that sends a decoded request whose action
  is not \<^verbatim>\<open>login\<close> (whatever else the request holds, a missing action included) gets one
  reply, the authentication-required error; no container changes, and the loop of the
  handler goes on to the next frame.
\<close>

theorem C3_gate:
  assumes "USERS s ws = None" and "data ''action'' \<noteq> Some (JStr ''login'')"
  shows "handler_step ws (Data data) now s
         = (Continue, [Send ws (Error None ''Authentication required. Please log in.'')], s)"
  using assms by (simp add: handler_step_def)

text \<open>Connection 7 has not logged in and asks to subscribe.\<close>

theorem C3_gate_witness:
  "USERS lobby 7 = None \<and> subscribe_request [''general''] ''action'' \<noteq> Some (JStr ''login'')
   \<and> handler_step 7 (Data (subscribe_request [''general''])) 0 lobby
       = (Continue, [Send 7 (Error None ''Authentication required. Please log in.'')], lobby)"
proof -
  have a: "USERS lobby 7 = None" by (simp add: lobby_def)
  have b: "subscribe_request [''general''] ''action'' \<noteq> Some (JStr ''login'')"
    by (simp add: subscribe_request_def)
  from C3_gate[of lobby 7 "subscribe_request [''general'']" 0] a b show ?thesis by simp
qed

subsection \<open>Publishing\<close>

text \<open>
  C10. A logged-in connection that publishes a room name and a message which are not
  blank after stripping, while the log file can be written, is never asked whether it is a
  member of the room: the record is appended to the room's log file, and the only event is
  one send of the record to the room's subscribers, or no event at all when the room
  has none. So a connection receives the record exactly when it is a subscriber; for the
  publisher this means exactly when it is subscribed itself.
\<close>

theorem C10_publish:
  assumes "USERS s ws = Some u"
    and "data ''action'' = Some (JStr ''publish'')"
    and "r = strip (py_str (get_or_blank data ''room''))" and "r \<noteq> []"
    and "m = strip (py_str (get_or_blank data ''message''))" and "m \<noteq> []"
    and "\<not> write_fails s (log_path_for r)"
    and "record = \<lparr>msg_room = r, msg_username = Some u, msg_message = m, msg_ts = now\<rparr>"
    and "members = subscribers_of (ROOMS s) r"
    and "before = (case LOG_DIR s (log_path_for r) of None \<Rightarrow> [] | Some ls \<Rightarrow> ls)"
  shows "handler_step ws (Data data) now s
         = (Continue, (if members = {} then [] else [Gather members (Message record)]),
            s\<lparr>LOG_DIR := (LOG_DIR s)(log_path_for r \<mapsto> before @ [Json_line record])\<rparr>)
       \<and> (\<forall>w. inbox w (fst (snd (handler_step ws (Data data) now s)))
               = (if w \<in> members then [Message record] else []))"
  using assms
  by (simp add: handler_step_def handle_publish_def append_room_log_def broadcast_def
      Let_def after_def)

text \<open>alice is not in the room general and publishes to it: bob, the only subscriber,
  receives the message, alice does not, and the log file has one more line.\<close>

theorem C10_publish_witness:
  "USERS lobby 1 = Some ''alice'' \<and> 1 \<notin> subscribers_of (ROOMS lobby) ''general''
   \<and> handler_step 1 (Data (publish_request ''general'' '' hi '')) 7 lobby
       = (Continue,
          [Gather {2} (Message \<lparr>msg_room = ''general'', msg_username = Some ''alice'',
                                msg_message = ''hi'', msg_ts = 7\<rparr>)],
          lobby\<lparr>LOG_DIR := [''general.txt'' \<mapsto>
             [Json_line hello,
              Json_line \<lparr>msg_room = ''general'', msg_username = Some ''alice'',
                         msg_message = ''hi'', msg_ts = 7\<rparr>]]\<rparr>)
   \<and> inbox 1 (fst (snd (handler_step 1 (Data (publish_request ''general'' '' hi '')) 7 lobby)))
       = []
   \<and> inbox 2 (fst (snd (handler_step 1 (Data (publish_request ''general'' '' hi '')) 7 lobby)))
       = [Message \<lparr>msg_room = ''general'', msg_username = Some ''alice'',
                    msg_message = ''hi'', msg_ts = 7\<rparr>]"
proof -
  let ?data = "publish_request ''general'' '' hi ''"
  let ?rec = "\<lparr>msg_room = ''general'', msg_username = Some ''alice'', msg_message = ''hi'',
               msg_ts = 7\<rparr>"
  have h1: "USERS lobby 1 = Some ''alice''" by (simp add: lobby_def)
  have h2: "?data ''action'' = Some (JStr ''publish'')" by (simp add: req_defs)
  have h3: "''general'' = strip (py_str (get_or_blank ?data ''room''))"
    by (simp add: req_defs get_or_blank_def strip_def isspace_def)
  have h4: "''hi'' = strip (py_str (get_or_blank ?data ''message''))"
    by (simp add: req_defs get_or_blank_def strip_def isspace_def)
  have p: "log_path_for ''general'' = ''general.txt''" by (simp add: txt_defs)
  have h5: "\<not> write_fails lobby (log_path_for ''general'')" by (simp add: lobby_def)
  have h6: "{2} = subscribers_of (ROOMS lobby) ''general''"
    by (simp add: lobby_def subscribers_of_def)
  have h7: "[Json_line hello]
            = (case LOG_DIR lobby (log_path_for ''general'') of None \<Rightarrow> [] | Some ls \<Rightarrow> ls)"
    by (simp add: p) (simp add: lobby_def)
  have l: "(LOG_DIR lobby)(''general.txt'' \<mapsto> [Json_line hello, Json_line ?rec])
           = [''general.txt'' \<mapsto> [Json_line hello, Json_line ?rec]]"
    by (simp add: lobby_def)
  note c = C10_publish[OF h1 h2 h3 _ h4 _ h5 refl h6 h7, of 7]
  have n: "(1::nat) \<notin> {2}" by simp
  from c h1 h6[symmetric] n show ?thesis by (simp add: p l)
qed

text \<open>
  When the log file of the room cannot be written, the publish of a logged-in connection
  sends nothing: \<^verbatim>\<open>append_room_log\<close> raises before \<^verbatim>\<open>broadcast\<close> is reached and nothing
  catches the exception on the way. The loop of the session handler is left, the handler
  prints the exception, the frames that follow are not read, and \<^verbatim>\<open>disconnect\<close> runs.
\<close>

lemma publish_append_raises:
  assumes "USERS s ws = Some u"
    and "data ''action'' = Some (JStr ''publish'')"
    and "r = strip (py_str (get_or_blank data ''room''))" and "r \<noteq> []"
    and "strip (py_str (get_or_blank data ''message'')) \<noteq> []"
    and "write_fails s (log_path_for r)"
  shows "handler_step ws (Data data) now s = (Raise OSError, [], s)
       \<and> handler ws ((Data data, now) # frames) s
           = (Print OSError # fst (disconnect ws s), snd (disconnect ws s))
       \<and> USERS (snd (disconnect ws s)) ws = None"
proof -
  have 1: "handler_step ws (Data data) now s = (Raise OSError, [], s)"
    using assms
    by (simp add: handler_step_def handle_publish_def append_room_log_def Let_def after_def)
  have 2: "handler ws ((Data data, now) # frames) s
           = (Print OSError # fst (disconnect ws s), snd (disconnect ws s))"
    by (simp add: handler_def 1 split: prod.split)
  have 3: "USERS (snd (disconnect ws s)) ws = None"
    by (simp add: disconnect_def Let_def split: option.split prod.split)
  from 1 2 3 show ?thesis by simp
qed

text \<open>
  C2, at the input where the code departs from it. alice and bob are in the room general
  and the log directory cannot be written. alice publishes: the exception of
  \<^verbatim>\<open>append_room_log\<close> ends her turn before the broadcast, bob receives nothing, the
  handler prints the exception, her next frame is not read and \<^verbatim>\<open>disconnect\<close> removes her
  entry. The reading side of the same store does what the claim says of the writing side:
  with a log directory that cannot be read, \<^verbatim>\<open>tail_room_log\<close> catches the exception, the
  subscribe goes on without a history message and the session continues.
\<close>

theorem C2_publish_disk_full:
  "write_fails disk_full (log_path_for ''general'')
   \<and> subscribers_of (ROOMS disk_full) ''general'' = {1, 2}
   \<and> handler_step 1 (Data (publish_request ''general'' ''hi'')) 7 disk_full
       = (Raise OSError, [], disk_full)
   \<and> inbox 2 (fst (snd (handler_step 1 (Data (publish_request ''general'' ''hi'')) 7
                           disk_full))) = []
   \<and> handler 1 [(Data (publish_request ''general'' ''hi''), 7),
                 (Data (publish_request ''general'' ''again''), 8)] disk_full
       = (Print OSError # fst (disconnect 1 disk_full), snd (disconnect 1 disk_full))
   \<and> USERS (snd (disconnect 1 disk_full)) 1 = None
   \<and> read_fails unreadable (log_path_for ''general'')
   \<and> handler_step 1 (Data (subscribe_request [''general''])) 0 unreadable
       = (Continue,
          [Send 1 (Subscribed [''general'']),
           Gather {1, 2} (Room_update ''general'' [''alice'', ''bob''])],
          unreadable)"
proof -
  have a: "write_fails disk_full (log_path_for ''general'')" by (simp add: demo_defs)
  have b: "subscribers_of (ROOMS disk_full) ''general'' = {1, 2}"
    by (simp add: demo_defs subscribers_of_def)
  have u: "USERS disk_full 1 = Some ''alice''" by (simp add: demo_defs)
  have h: "publish_request ''general'' ''hi'' ''action'' = Some (JStr ''publish'')"
    "''general'' = strip (py_str (get_or_blank (publish_request ''general'' ''hi'') ''room''))"
    "strip (py_str (get_or_blank (publish_request ''general'' ''hi'') ''message'')) \<noteq> []"
    by (simp_all add: req_defs get_or_blank_def strip_def isspace_def)
  note c = publish_append_raises[OF u h(1) h(2) _ h(3) a,
      of 7 "[(Data (publish_request ''general'' ''again''), 8)]"]
  have c1: "handler_step 1 (Data (publish_request ''general'' ''hi'')) 7 disk_full
       = (Raise OSError, [], disk_full)"
    and c2: "handler 1 [(Data (publish_request ''general'' ''hi''), 7),
                 (Data (publish_request ''general'' ''again''), 8)] disk_full
       = (Print OSError # fst (disconnect 1 disk_full), snd (disconnect 1 disk_full))"
    and c3: "USERS (snd (disconnect 1 disk_full)) 1 = None"
    using c by simp_all
  have c4: "inbox 2 (fst (snd (handler_step 1 (Data (publish_request ''general'' ''hi'')) 7
                           disk_full))) = []"
    by (simp only: c1 fst_conv snd_conv inbox.simps)
  have d: "read_fails unreadable (log_path_for ''general'')" by (simp add: demo_defs)
  have ul: "user_list [Suc 0 \<mapsto> ''alice'', 2 \<mapsto> ''bob''] {Suc 0, 2} = [''alice'', ''bob'']"
    by code_simp
  have e: "handler_step 1 (Data (subscribe_request [''general''])) 0 unreadable
       = (Continue,
          [Send 1 (Subscribed [''general'']),
           Gather {1, 2} (Room_update ''general'' [''alice'', ''bob''])],
          unreadable)"
    by (simp add: handler_step_def handle_subscribe_def req_defs or_empty_list_def txt_defs
        subscribers_of_def broadcast_def replay_def tail_room_log_def
        broadcast_room_update_def demo_defs Let_def after_def ul)
  from a b c1 c2 c3 c4 d e show ?thesis by blast
qed

subsection \<open>Requests that change nothing\<close>

text \<open>
  C8, at the input where the code departs from it. alice, logged in, sends an unsubscribe
  request with an empty list of rooms: the handler sends nothing at all and goes on.
  The same empty list in a subscribe request is answered with the error
  \<^verbatim>\<open>rooms list required\<close>. An unsubscribe request for a room she is not in, and a
  subscribe request whose only room name is blank, get no reply either.
\<close>

theorem C8_unsubscribe_nothing:
  "handler_step 1 (Data (unsubscribe_request [])) 0 both_in = (Continue, [], both_in)
   \<and> handler_step 1 (Data (subscribe_request [])) 0 both_in
       = (Continue, [Send 1 (Error (Some ''subscribe'') ''rooms list required'')], both_in)
   \<and> handler_step 1 (Data (unsubscribe_request [''sports''])) 0 both_in
       = (Continue, [], both_in)
   \<and> handler_step 1 (Data (subscribe_request [''  ''])) 0 both_in = (Continue, [], both_in)"
  by (simp add: handler_step_def handle_unsubscribe_def handle_subscribe_def after_def
      or_empty_list_def req_defs demo_defs Let_def strip_def isspace_def)

text \<open>
  C1, at the input where the code departs from it. alice subscribes to general, where bob
  is: bob gets the join notice, alice the confirmation and the history, both the
  membership list. alice then sends the same request again: the join notice is not
  repeated, but the confirmation naming general, the history and the membership list
  are all sent a second time, because the room is appended to
  \<^verbatim>\<open>newly_subscribed_rooms\<close> whether or not \<^verbatim>\<open>is_new_sub\<close> holds.
\<close>

theorem C1_second_subscribe:
  "handler_step 1 (Data (subscribe_request [''general''])) 0 lobby
     = (Continue,
        [Gather {2} (Join ''general'' ''alice''), Send 1 (Subscribed [''general'']),
         Send 1 (History ''general'' [hello]),
         Gather {1, 2} (Room_update ''general'' [''alice'', ''bob''])],
        both_in)
   \<and> handler_step 1 (Data (subscribe_request [''general''])) 0 both_in
     = (Continue,
        [Send 1 (Subscribed [''general'']), Send 1 (History ''general'' [hello]),
         Gather {1, 2} (Room_update ''general'' [''alice'', ''bob''])],
        both_in)"
proof -
  have u: "user_list [Suc 0 \<mapsto> ''alice'', 2 \<mapsto> ''bob''] {Suc 0, 2} = [''alice'', ''bob'']"
    by code_simp
  show ?thesis
    by (simp add: handler_step_def handle_subscribe_def req_defs or_empty_list_def txt_defs
        subscribers_of_def broadcast_def replay_def tail_room_log_def slice_from_def
        broadcast_room_update_def lobby_def both_in_def Let_def after_def u)
qed

subsection \<open>The history store\<close>

text \<open>A line that decodes at the end of a file is the last record of what the file decodes
  to, unless a line before it raises; a run of stored publishes adds one such line each.\<close>

lemma decode_lines_json_map: "decode_lines (map (\<lambda>p. Json_line (f p)) ps) = Inr (map f ps)"
  by (induction ps) auto

lemma decode_lines_snoc_json:
  "decode_lines (ls @ [Json_line m])
   = (case decode_lines ls of Inl e \<Rightarrow> Inl e | Inr out \<Rightarrow> Inr (out @ [m]))"
  by (induction ls rule: decode_lines.induct) (auto split: sum.splits)

lemma decode_lines_snoc_malformed: "decode_lines (ls @ [Malformed_line]) = decode_lines ls"
  by (induction ls rule: decode_lines.induct) (auto split: sum.splits)

lemma decode_lines_quiet: "\<not> list_ex raising ls \<Longrightarrow> \<exists>out. decode_lines ls = Inr out"
  by (induction ls rule: decode_lines.induct) auto

lemma slice_from_neg: "0 < n \<Longrightarrow> slice_from (- n) xs = drop (length xs - nat n) xs"
  by (auto simp: slice_from_def nat_diff_distrib' intro!: arg_cong2[where f=drop])

lemma publish_step:
  assumes "USERS s ws \<noteq> None" "strip r \<noteq> []" "strip body \<noteq> []"
    "\<not> write_fails s (log_path_for (strip r))"
  shows "snd (snd (handler_step ws (Data (publish_request r body)) now s))
    = s\<lparr>LOG_DIR := (LOG_DIR s)(log_path_for (strip r) \<mapsto>
          (case LOG_DIR s (log_path_for (strip r)) of None \<Rightarrow> [] | Some ls \<Rightarrow> ls)
          @ [Json_line (published r s (ws, body, now))])\<rparr>"
  using assms
  by (auto simp add: handler_step_def handle_publish_def append_room_log_def Let_def after_def
      publish_request_def get_or_blank_def published_def)

lemma publish_all_log:
  assumes "strip r \<noteq> []" "\<not> write_fails s (log_path_for (strip r))"
    "\<forall>p \<in> set ps. USERS s (fst p) \<noteq> None \<and> strip (fst (snd p)) \<noteq> []"
  shows "publish_all r ps s
    = (if ps = [] then s else s\<lparr>LOG_DIR := (LOG_DIR s)(log_path_for (strip r) \<mapsto>
          (case LOG_DIR s (log_path_for (strip r)) of None \<Rightarrow> [] | Some ls \<Rightarrow> ls)
          @ map (\<lambda>p. Json_line (published r s p)) ps)\<rparr>)"
  using assms
proof (induction ps arbitrary: s)
  case Nil then show ?case by simp
next
  case (Cons p ps)
  obtain ws body tnow where p: "p = (ws, body, tnow)" by (cases p) auto
  let ?s1 = "snd (snd (handler_step ws (Data (publish_request r body)) tnow s))"
  have s1: "?s1 = s\<lparr>LOG_DIR := (LOG_DIR s)(log_path_for (strip r) \<mapsto>
          (case LOG_DIR s (log_path_for (strip r)) of None \<Rightarrow> [] | Some ls \<Rightarrow> ls)
          @ [Json_line (published r s (ws, body, tnow))])\<rparr>"
    using Cons.prems p by (intro publish_step) auto
  have pub: "published r ?s1 = published r s"
    by (simp add: s1 published_def fun_eq_iff)
  have "publish_all r ps ?s1 = (if ps = [] then ?s1 else ?s1\<lparr>LOG_DIR := (LOG_DIR ?s1)(log_path_for (strip r) \<mapsto>
          (case LOG_DIR ?s1 (log_path_for (strip r)) of None \<Rightarrow> [] | Some ls \<Rightarrow> ls)
          @ map (\<lambda>p. Json_line (published r ?s1 p)) ps)\<rparr>)"
    using Cons.prems by (intro Cons.IH) (auto simp: s1)
  then show ?case
    by (simp add: p pub) (simp add: s1)
qed

lemma no_history_broadcast:
  "\<not> is_history p \<Longrightarrow> filter is_history (inbox w (broadcast r p e s)) = []"
  by (simp add: broadcast_def Let_def split: option.split)

lemma no_history_room_update: "filter is_history (inbox w (broadcast_room_update r s)) = []"
  by (simp add: broadcast_room_update_def Let_def no_history_broadcast)

lemma tail_room_log_ROOMS [simp]: "tail_room_log r n (s\<lparr>ROOMS := x\<rparr>) = tail_room_log r n s"
  by (simp add: tail_room_log_def Let_def split: option.split)

lemma subscribe_one_history:
  assumes "USERS s w = Some name" "name \<noteq> []" "strip r \<noteq> []"
    and "tail_room_log (strip r) 50 s = Inr h"
  shows "fst (handler_step w (Data (subscribe_request [r])) now s) = Continue
       \<and> filter is_history (inbox w (fst (snd (handler_step w (Data (subscribe_request [r])) now s))))
           = (if h = [] then [] else [History (strip r) h])"
  using assms
  by (simp add: handler_step_def handle_subscribe_def subscribe_request_def or_empty_list_def
      Let_def inbox_append no_history_broadcast no_history_room_update replay_def after_def)

lemma subscribe_one_raises:
  assumes "USERS s w = Some name" "name \<noteq> []" "strip r \<noteq> []"
    and "tail_room_log (strip r) 50 s = Inl e"
  shows "fst (handler_step w (Data (subscribe_request [r])) now s) = Raise e"
  using assms
  by (simp add: handler_step_def handle_subscribe_def subscribe_request_def or_empty_list_def
      Let_def replay_def after_def)

text \<open>After more than 50 publishes to a room that were all stored, one after the other,
  the tail of 50 is the last 50 records published, oldest first, and it is the one history
  message sent to a connection that then subscribes to the room.\<close>

lemma replay_after_publishes:
  assumes k: "50 < length ps" and r: "strip r \<noteq> []"
    and ps: "\<forall>p \<in> set ps. USERS s (fst p) \<noteq> None \<and> strip (fst (snd p)) \<noteq> []"
    and wf: "\<not> write_fails s (log_path_for (strip r))"
    and rf: "\<not> read_fails s (log_path_for (strip r))"
    and w: "USERS s w = Some name" "name \<noteq> []"
  shows "tail_room_log (strip r) 50 (publish_all r ps s)
           = Inr (drop (length ps - 50) (map (published r s) ps))
       \<and> filter is_history
            (inbox w (fst (snd (handler_step w (Data (subscribe_request [r])) now
                                  (publish_all r ps s)))))
           = [History (strip r) (drop (length ps - 50) (map (published r s) ps))]"
proof -
  let ?p = "log_path_for (strip r)"
  let ?before = "case LOG_DIR s ?p of None \<Rightarrow> [] | Some ls \<Rightarrow> ls"
  let ?K = "publish_all r ps s"
  have ne: "ps \<noteq> []" using k by auto
  have K: "?K = s\<lparr>LOG_DIR := (LOG_DIR s)(?p \<mapsto> ?before @ map (\<lambda>p. Json_line (published r s p)) ps)\<rparr>"
    using publish_all_log[OF r wf ps] ne by simp
  have "tail_room_log (strip r) 50 ?K
        = decode_lines (drop (length ?before + length ps - 50)
                          (?before @ map (\<lambda>p. Json_line (published r s p)) ps))"
    using rf by (simp add: K tail_room_log_def slice_from_neg Let_def)
  also have "\<dots> = decode_lines (drop (length ps - 50) (map (\<lambda>p. Json_line (published r s p)) ps))"
    using k by simp
  also have "\<dots> = Inr (drop (length ps - 50) (map (published r s) ps))"
    by (simp only: drop_map decode_lines_json_map)
  finally have t: "tail_room_log (strip r) 50 ?K = Inr (drop (length ps - 50) (map (published r s) ps))" .
  have "drop (length ps - 50) (map (published r s) ps) \<noteq> []" using k by simp
  moreover have "USERS ?K w = Some name" using w by (simp add: K)
  ultimately show ?thesis
    using subscribe_one_history[OF _ w(2) r t, of w now] by (simp add: t)
qed

lemma path_general: "log_path_for ''general'' = ''general.txt''"
  by (simp add: txt_defs)

lemma strip_general: "strip ''general'' = ''general''"
  by (simp add: strip_def isspace_def)

lemma path_long_name: "log_path_for long_name = long_name @ ''.txt''"
  by (simp add: log_path_for_def long_name_def isalnum_def)

lemma strip_long_name: "strip long_name = long_name"
  by (simp add: strip_def long_name_def isspace_def)

lemma long_name_no_file: "LOG_DIR picky (long_name @ ''.txt'') = None"
proof -
  have "length (long_name @ ''.txt'') \<noteq> length ''general.txt''"
    by (simp add: long_name_def)
  then have "long_name @ ''.txt'' \<noteq> ''general.txt''" by metis
  then show ?thesis by (simp add: picky_def lobby_def)
qed

text \<open>
  C6, at inputs where the code departs from it. The log of general holds 51 records and
  after them one line that is not JSON. \<^verbatim>\<open>tail_room_log\<close> takes the last 50 lines and then
  drops the line that does not decode, so the tail, and the history message that a
  subscriber gets, hold 49 records, the ones with the clock readings 2 to 50, and not the
  last 50 records; with \<open>n = 1\<close> the tail is empty. With \<open>n = 0\<close> the slice \<^verbatim>\<open>lines[-0:]\<close>
  is the whole list, so the tail of a file with one record has that record. A line on
  which \<^verbatim>\<open>json.loads\<close> raises \<^verbatim>\<open>ValueError\<close> is not skipped: the exception leaves
  \<^verbatim>\<open>tail_room_log\<close> and ends the turn of the subscriber. For a room without a log file
  whose name the file system refuses, \<^verbatim>\<open>exists()\<close> raises, and so does the subscribe,
  where the claim has the empty sequence.
\<close>

theorem C6_tail_torn_log:
  "LOG_DIR torn (log_path_for ''general'')
     = Some (map (\<lambda>i. Json_line (greeting i)) [0..<51] @ [Malformed_line])
   \<and> tail_room_log ''general'' 50 torn = Inr (map greeting [2..<51])
   \<and> length (map greeting [2..<51]) = 49
   \<and> filter is_history
        (inbox 1 (fst (snd (handler_step 1 (Data (subscribe_request [''general''])) 0 torn))))
       = [History ''general'' (map greeting [2..<51])]
   \<and> tail_room_log ''general'' 1 torn = Inr []
   \<and> tail_room_log ''general'' 0 lobby = Inr [hello]
   \<and> tail_room_log ''general'' 50 digits = Inl ValueError
   \<and> fst (handler_step 1 (Data (subscribe_request [''general''])) 0 digits) = Raise ValueError
   \<and> LOG_DIR picky (log_path_for long_name) = None
   \<and> tail_room_log long_name 50 picky = Inl OSError
   \<and> fst (handler_step 1 (Data (subscribe_request [long_name])) 0 picky) = Raise OSError"
proof -
  let ?lines = "map (\<lambda>i. Json_line (greeting i)) [0..<51] @ [Malformed_line]"
  have l: "LOG_DIR torn (log_path_for ''general'') = Some ?lines"
    by (simp add: path_general torn_def)
  have rf: "\<not> read_fails torn ''general.txt''" by (simp add: torn_def lobby_def)
  have d50: "drop 2 ?lines = map (\<lambda>i. Json_line (greeting i)) [2..<51] @ [Malformed_line]"
    by (simp add: drop_map numeral_2_eq_2 del: upt_rec_numeral)
  have d1: "drop 51 ?lines = [Malformed_line]" by (simp del: upt_rec_numeral)
  have s50: "slice_from (- 50) ?lines = drop 2 ?lines"
    by (simp add: slice_from_def del: upt_rec_numeral)
  have s1: "slice_from (- 1) ?lines = drop 51 ?lines"
    by (simp add: slice_from_def del: upt_rec_numeral)
  have dd: "decode_lines (slice_from (- 50) ?lines) = Inr (map greeting [2..<51])"
    by (simp only: s50 d50 decode_lines_snoc_malformed decode_lines_json_map)
  have d1': "decode_lines (slice_from (- 1) ?lines) = Inr []"
    by (simp only: s1 d1 decode_lines.simps)
  have t50: "tail_room_log ''general'' 50 torn = Inr (map greeting [2..<51])"
    using l rf dd by (simp only: tail_room_log_def Let_def path_general option.case if_False)
  have t1: "tail_room_log ''general'' 1 torn = Inr []"
    using l rf d1' by (simp only: tail_room_log_def Let_def path_general option.case if_False)
  have len: "length (map greeting [2..<51]) = 49" by (simp del: upt_rec_numeral)
  have u: "USERS torn 1 = Some ''alice''" "USERS digits 1 = Some ''alice''"
    "USERS picky 1 = Some ''alice''"
    by (simp_all add: torn_def digits_def picky_def lobby_def)
  have ne: "map greeting [2..<51] \<noteq> []" by (simp del: upt_rec_numeral)
  have h: "filter is_history
        (inbox 1 (fst (snd (handler_step 1 (Data (subscribe_request [''general''])) 0 torn))))
       = [History ''general'' (map greeting [2..<51])]"
    using subscribe_one_history[OF u(1), of "''general''" "map greeting [2..<51]" 0] t50 ne
    by (simp add: strip_general del: upt_rec_numeral)
  have t0: "tail_room_log ''general'' 0 lobby = Inr [hello]"
    by (simp add: tail_room_log_def path_general slice_from_def lobby_def)
  have tv: "tail_room_log ''general'' 50 digits = Inl ValueError"
    by (simp add: tail_room_log_def path_general slice_from_def digits_def lobby_def)
  have hv: "fst (handler_step 1 (Data (subscribe_request [''general''])) 0 digits) = Raise ValueError"
    using subscribe_one_raises[OF u(2), of "''general''" ValueError 0] tv
    by (simp add: strip_general)
  have nf: "LOG_DIR picky (log_path_for long_name) = None"
    by (simp add: path_long_name long_name_no_file)
  have sf: "stat_fails picky (long_name @ ''.txt'')"
    by (simp add: picky_def long_name_def)
  have to: "tail_room_log long_name 50 picky = Inl OSError"
    using nf sf by (simp add: tail_room_log_def path_long_name)
  have lne: "long_name \<noteq> []" by (simp add: long_name_def)
  have ho: "fst (handler_step 1 (Data (subscribe_request [long_name])) 0 picky) = Raise OSError"
    using subscribe_one_raises[OF u(3), of long_name OSError 0] to lne
    by (simp add: strip_long_name)
  from l t50 len h t1 t0 tv hv nf to ho show ?thesis by blast
qed

text \<open>
  C9. The name of the log file of a room is the room's name without the characters that
  are neither alphanumeric nor \<^verbatim>\<open>-\<close> nor \<^verbatim>\<open>_\<close>, followed by \<^verbatim>\<open>.txt\<close>. So \<^verbatim>\<open>a b\<close> and
  \<^verbatim>\<open>ab\<close> have the same file, and a name without any allowed character has the file
  \<^verbatim>\<open>.txt\<close>. When the name published to and a second room name have the same file, which
  can be written and read and has among its last 49 lines none on which \<^verbatim>\<open>json.loads\<close>
  raises, a stored publish is the last record of the second room's tail, which is returned,
  and the replay for a subscriber of the second room starts with a history message that
  holds it.
\<close>

theorem C9_shared_log_file:
  "log_path_for r = filter (\<lambda>c. isalnum c \<or> c = CHR ''-'' \<or> c = CHR ''_'') r @ ''.txt''
   \<and> log_path_for ''a b'' = log_path_for ''ab''
   \<and> ((\<forall>c \<in> set r. \<not> isalnum c \<and> c \<noteq> CHR ''-'' \<and> c \<noteq> CHR ''_'') \<longrightarrow> log_path_for r = ''.txt'')
   \<and> (log_path_for (strip r1) = log_path_for r2 \<and> USERS s ws \<noteq> None
        \<and> strip r1 \<noteq> [] \<and> strip body \<noteq> []
        \<and> \<not> write_fails s (log_path_for r2) \<and> \<not> read_fails s (log_path_for r2)
        \<and> \<not> list_ex raising
              (slice_from (- 49) (case LOG_DIR s (log_path_for r2) of None \<Rightarrow> [] | Some ls \<Rightarrow> ls))
        \<and> s' = snd (snd (handler_step ws (Data (publish_request r1 body)) now s))
      \<longrightarrow> (\<exists>h. tail_room_log r2 50 s' = Inr h \<and> h \<noteq> []
               \<and> last h = published r1 s (ws, body, now)
               \<and> replay w s' r2
                   = Inr (Send w (History r2 h) # broadcast_room_update r2 s')))"
proof -
  have a: "log_path_for r = filter (\<lambda>c. isalnum c \<or> c = CHR ''-'' \<or> c = CHR ''_'') r @ ''.txt''"
    by (simp add: log_path_for_def)
  have b: "log_path_for ''a b'' = log_path_for ''ab''"
    by (simp add: log_path_for_def isalnum_def)
  have c: "(\<forall>c \<in> set r. \<not> isalnum c \<and> c \<noteq> CHR ''-'' \<and> c \<noteq> CHR ''_'') \<longrightarrow> log_path_for r = ''.txt''"
    by (auto simp: log_path_for_def filter_empty_conv)
  have d: "\<exists>h. tail_room_log r2 50 s' = Inr h \<and> h \<noteq> []
               \<and> last h = published r1 s (ws, body, now)
               \<and> replay w s' r2
                   = Inr (Send w (History r2 h) # broadcast_room_update r2 s')"
    if p: "log_path_for (strip r1) = log_path_for r2" and u: "USERS s ws \<noteq> None"
      and r: "strip r1 \<noteq> []" and m: "strip body \<noteq> []"
      and wf: "\<not> write_fails s (log_path_for r2)" and rf: "\<not> read_fails s (log_path_for r2)"
      and q: "\<not> list_ex raising
              (slice_from (- 49) (case LOG_DIR s (log_path_for r2) of None \<Rightarrow> [] | Some ls \<Rightarrow> ls))"
      and s': "s' = snd (snd (handler_step ws (Data (publish_request r1 body)) now s))"
  proof -
    let ?before = "case LOG_DIR s (log_path_for r2) of None \<Rightarrow> [] | Some ls \<Rightarrow> ls"
    let ?rec = "published r1 s (ws, body, now)"
    have st: "s' = s\<lparr>LOG_DIR := (LOG_DIR s)(log_path_for r2 \<mapsto> ?before @ [Json_line ?rec])\<rparr>"
      using publish_step[OF u r m, of now] wf by (simp add: s' p)
    have "slice_from (- 49) ?before = drop (length ?before + 1 - 50) ?before"
      by (simp add: slice_from_neg)
    with decode_lines_quiet[OF q]
    obtain out where out: "decode_lines (drop (length ?before + 1 - 50) ?before) = Inr out"
      by auto
    have "tail_room_log r2 50 s' = decode_lines (drop (length ?before + 1 - 50) (?before @ [Json_line ?rec]))"
      using rf by (simp add: st tail_room_log_def slice_from_neg Let_def)
    also have "\<dots> = decode_lines (drop (length ?before + 1 - 50) ?before @ [Json_line ?rec])"
      by simp
    also have "\<dots> = Inr (out @ [?rec])"
      by (simp only: decode_lines_snoc_json out sum.case)
    finally have t: "tail_room_log r2 50 s' = Inr (out @ [?rec])" .
    then show ?thesis by (simp add: replay_def)
  qed
  from a b c d show ?thesis by blast
qed

text \<open>alice publishes to the room \<^verbatim>\<open>a b\<close>; bob's replay for the room \<^verbatim>\<open>ab\<close> holds her
  message.\<close>

theorem C9_shared_log_file_witness:
  "log_path_for ''a b'' = ''ab.txt'' \<and> log_path_for ''ab'' = ''ab.txt''
   \<and> log_path_for ''#!'' = ''.txt''
   \<and> tail_room_log ''ab'' 50
        (snd (snd (handler_step 1 (Data (publish_request ''a b'' ''hi'')) 7 lobby)))
      = Inr [\<lparr>msg_room = ''a b'', msg_username = Some ''alice'', msg_message = ''hi'',
              msg_ts = 7\<rparr>]
   \<and> replay 2 (snd (snd (handler_step 1 (Data (publish_request ''a b'' ''hi'')) 7 lobby))) ''ab''
      = Inr (Send 2 (History ''ab''
          [\<lparr>msg_room = ''a b'', msg_username = Some ''alice'', msg_message = ''hi'', msg_ts = 7\<rparr>])
        # broadcast_room_update ''ab''
            (snd (snd (handler_step 1 (Data (publish_request ''a b'' ''hi'')) 7 lobby))))"
proof -
  let ?s' = "snd (snd (handler_step 1 (Data (publish_request ''a b'' ''hi'')) 7 lobby))"
  note c = C9_shared_log_file[of "''#!''" "''a b''" "''ab''" lobby 1 "''hi''" ?s' 7 2]
  have p1: "log_path_for ''a b'' = ''ab.txt''" by (simp add: txt_defs)
  have p2: "log_path_for ''ab'' = ''ab.txt''" by (simp add: txt_defs)
  have s1: "strip ''a b'' = ''a b''" by (simp add: strip_def isspace_def)
  have s2: "strip ''hi'' = ''hi''" by (simp add: strip_def isspace_def)
  have bad: "\<forall>c \<in> set ''#!''. \<not> isalnum c \<and> c \<noteq> CHR ''-'' \<and> c \<noteq> CHR ''_''"
    by (simp add: isalnum_def)
  have p3: "log_path_for ''#!'' = ''.txt''" using c bad by blast
  have h: "USERS lobby 1 \<noteq> None" "\<not> write_fails lobby (log_path_for ''ab'')"
    "\<not> read_fails lobby (log_path_for ''ab'')"
    "\<not> list_ex raising
        (slice_from (- 49) (case LOG_DIR lobby (log_path_for ''ab'') of None \<Rightarrow> [] | Some ls \<Rightarrow> ls))"
    by (simp_all add: lobby_def p2 slice_from_def)
  have t: "tail_room_log ''ab'' 50 ?s'
      = Inr [\<lparr>msg_room = ''a b'', msg_username = Some ''alice'', msg_message = ''hi'', msg_ts = 7\<rparr>]"
    by (simp add: handler_step_def handle_publish_def append_room_log_def Let_def after_def
        req_defs get_or_blank_def s1 s2 p1 p2 tail_room_log_def slice_from_def)
       (simp add: lobby_def)
  have "\<exists>h. tail_room_log ''ab'' 50 ?s' = Inr h \<and> h \<noteq> []
          \<and> last h = published ''a b'' lobby (1, ''hi'', 7)
          \<and> replay 2 ?s' ''ab''
              = Inr (Send 2 (History ''ab'' h) # broadcast_room_update ''ab'' ?s')"
    using c h by (simp add: s1 s2 p1 p2)
  with t have e: "replay 2 ?s' ''ab''
      = Inr (Send 2 (History ''ab''
          [\<lparr>msg_room = ''a b'', msg_username = Some ''alice'', msg_message = ''hi'', msg_ts = 7\<rparr>])
        # broadcast_room_update ''ab'' ?s')"
    by auto
  from e p1 p2 p3 t show ?thesis by simp
qed

subsection \<open>The room directory as an association list\<close>

text \<open>A property of every entry survives the dictionary operations the handlers use.\<close>

lemma list_all_update:
  "list_all P al \<Longrightarrow> P (k, v) \<Longrightarrow> list_all P (AList.update k v al)"
  by (induction al) auto

lemma list_all_delete: "list_all P al \<Longrightarrow> list_all P (AList.delete k al)"
  by (induction al) auto

lemma map_of_list_all: "list_all P al \<Longrightarrow> map_of al k = Some v \<Longrightarrow> P (k, v)"
  by (auto simp: list_all_iff dest: map_of_SomeD)

lemma subscribers_of_list_all:
  "list_all P rooms \<Longrightarrow> subscribers_of rooms r = {} \<or> P (r, subscribers_of rooms r)"
  by (auto simp: subscribers_of_def split: option.split dest: map_of_list_all)

lemma rooms_get_Some: "rooms_get rooms v = Some subs \<Longrightarrow> map_of rooms (py_str v) = Some subs"
  by (cases v) auto

subsection \<open>What the loops change\<close>

text \<open>The loops of subscribe and unsubscribe change the room directory only; its keys stay
  distinct, and a property of its entries is kept when it is kept by adding the
  connection to a set, or by removing it from a set that stays non-empty.\<close>

lemma subscribe_loop_frame:
  "subscribe_loop ws name items s = (evs, newly, s') \<Longrightarrow> s' = s\<lparr>ROOMS := ROOMS s'\<rparr>"
proof (induction items arbitrary: s evs newly)
  case Nil then show ?case by simp
next
  case (Cons v items)
  show ?case
  proof (cases "strip (py_str v) = []")
    case True with Cons show ?thesis by simp
  next
    case False
    let ?r = "strip (py_str v)"
    let ?s1 = "s\<lparr>ROOMS := AList.update ?r (insert ws (subscribers_of (ROOMS s) ?r)) (ROOMS s)\<rparr>"
    obtain e1 n1 where rec: "subscribe_loop ws name items ?s1 = (e1, n1, s')"
      using Cons.prems False by (auto simp: Let_def split: prod.splits)
    have "?s1\<lparr>ROOMS := ROOMS s'\<rparr> = s\<lparr>ROOMS := ROOMS s'\<rparr>" by simp
    with Cons.IH[OF rec] show ?thesis by simp
  qed
qed

lemma subscribe_loop_list_all:
  assumes "subscribe_loop ws name items s = (evs, newly, s')" and "list_all P (ROOMS s)"
    and A: "\<And>r X. X = {} \<or> P (r, X) \<Longrightarrow> P (r, insert ws X)"
  shows "list_all P (ROOMS s')"
  using assms(1,2)
proof (induction items arbitrary: s evs newly)
  case Nil then show ?case by simp
next
  case (Cons v items)
  show ?case
  proof (cases "strip (py_str v) = []")
    case True with Cons show ?thesis by simp
  next
    case False
    let ?r = "strip (py_str v)"
    let ?s1 = "s\<lparr>ROOMS := AList.update ?r (insert ws (subscribers_of (ROOMS s) ?r)) (ROOMS s)\<rparr>"
    obtain e1 n1 where rec: "subscribe_loop ws name items ?s1 = (e1, n1, s')"
      using Cons.prems False by (auto simp: Let_def split: prod.splits)
    have "P (?r, insert ws (subscribers_of (ROOMS s) ?r))"
      using subscribers_of_list_all[OF Cons.prems(2), of ?r] by (intro A) blast
    then have "list_all P (ROOMS ?s1)"
      using Cons.prems(2) by (simp add: list_all_update)
    from Cons.IH[OF rec this] show ?thesis .
  qed
qed

lemma subscribe_loop_distinct:
  assumes "subscribe_loop ws name items s = (evs, newly, s')" and "distinct (map fst (ROOMS s))"
  shows "distinct (map fst (ROOMS s'))"
  using assms
proof (induction items arbitrary: s evs newly)
  case Nil then show ?case by simp
next
  case (Cons v items)
  show ?case
  proof (cases "strip (py_str v) = []")
    case True with Cons show ?thesis by simp
  next
    case False
    let ?r = "strip (py_str v)"
    let ?s1 = "s\<lparr>ROOMS := AList.update ?r (insert ws (subscribers_of (ROOMS s) ?r)) (ROOMS s)\<rparr>"
    obtain e1 n1 where rec: "subscribe_loop ws name items ?s1 = (e1, n1, s')"
      using Cons.prems False by (auto simp: Let_def split: prod.splits)
    have "distinct (map fst (ROOMS ?s1))"
      using Cons.prems(2) by (simp add: AList.distinct_update)
    from Cons.IH[OF rec this] show ?thesis .
  qed
qed

lemma unsubscribe_loop_cases:
  assumes "unsubscribe_loop ws name (v # rest) s = (e, evs, unsubscribed, s')"
  obtains (raise) "s' = s"
    | (skip) e1 u1 where "unsubscribe_loop ws name rest s = (e, e1, u1, s')"
    | (leave) subs e1 u1 where "map_of (ROOMS s) (py_str v) = Some subs" "ws \<in> subs"
        "unsubscribe_loop ws name rest (leave_one ws (py_str v) subs s) = (e, e1, u1, s')"
proof (cases "hashable v")
  case False
  with assms have "s' = s" by simp
  then show ?thesis by (rule raise)
next
  case True
  show ?thesis
  proof (cases "rooms_get (ROOMS s) v")
    case None
    with assms True show ?thesis by (auto intro: skip)
  next
    case (Some subs)
    show ?thesis
    proof (cases "subs \<noteq> {} \<and> ws \<in> subs")
      case False
      with assms True Some show ?thesis by (auto intro: skip)
    next
      case yes: True
      obtain e1 v1 u1 s1 where
        r: "unsubscribe_loop ws name rest (leave_one ws (py_str v) subs s) = (e1, v1, u1, s1)"
        by (metis prod_cases4)
      from assms True Some yes r have "e1 = e" "s1 = s'"
        by (auto simp: Let_def leave_one_def split: if_splits)
      with r rooms_get_Some[OF Some] yes show ?thesis by (auto intro: leave)
    qed
  qed
qed

lemma leave_one_list_all:
  assumes "list_all P (ROOMS s)" and "map_of (ROOMS s) r = Some subs"
    and B: "\<And>r X. P (r, X) \<Longrightarrow> X - {ws} \<noteq> {} \<Longrightarrow> P (r, X - {ws})"
  shows "list_all P (ROOMS (leave_one ws r subs s))"
  using assms(1) B[OF map_of_list_all[OF assms(1,2)]]
  by (auto simp: leave_one_def list_all_update list_all_delete)

lemma leave_one_distinct:
  "distinct (map fst (ROOMS s)) \<Longrightarrow> distinct (map fst (ROOMS (leave_one ws r subs s)))"
  by (simp add: leave_one_def AList.distinct_update AList.distinct_delete)

lemma unsubscribe_loop_frame:
  "unsubscribe_loop ws name items s = (e, evs, unsubscribed, s') \<Longrightarrow> s' = s\<lparr>ROOMS := ROOMS s'\<rparr>"
proof (induction items arbitrary: s e evs unsubscribed)
  case Nil then show ?case by simp
next
  case (Cons v items)
  from Cons.prems show ?case
  proof (cases rule: unsubscribe_loop_cases)
    case raise then show ?thesis by simp
  next
    case (skip e1 u1) then show ?thesis by (rule Cons.IH)
  next
    case (leave subs e1 u1)
    have "leave_one ws (py_str v) subs s\<lparr>ROOMS := ROOMS s'\<rparr> = s\<lparr>ROOMS := ROOMS s'\<rparr>"
      by (simp add: leave_one_def)
    with Cons.IH[OF leave(3)] show ?thesis by simp
  qed
qed

lemma unsubscribe_loop_list_all:
  assumes "unsubscribe_loop ws name items s = (e, evs, unsubscribed, s')"
    and "list_all P (ROOMS s)"
    and B: "\<And>r X. P (r, X) \<Longrightarrow> X - {ws} \<noteq> {} \<Longrightarrow> P (r, X - {ws})"
  shows "list_all P (ROOMS s')"
  using assms(1,2)
proof (induction items arbitrary: s e evs unsubscribed)
  case Nil then show ?case by simp
next
  case (Cons v items)
  from Cons.prems(1) show ?case
  proof (cases rule: unsubscribe_loop_cases)
    case raise then show ?thesis using Cons.prems by simp
  next
    case (skip e1 u1) then show ?thesis using Cons.prems by (intro Cons.IH)
  next
    case (leave subs e1 u1)
    from Cons.IH[OF leave(3) leave_one_list_all[OF Cons.prems(2) leave(1) B]] show ?thesis
      by simp
  qed
qed

lemma unsubscribe_loop_distinct:
  assumes "unsubscribe_loop ws name items s = (e, evs, unsubscribed, s')"
    and "distinct (map fst (ROOMS s))"
  shows "distinct (map fst (ROOMS s'))"
  using assms
proof (induction items arbitrary: s e evs unsubscribed)
  case Nil then show ?case by simp
next
  case (Cons v items)
  from Cons.prems(1) show ?case
  proof (cases rule: unsubscribe_loop_cases)
    case raise then show ?thesis using Cons.prems by simp
  next
    case (skip e1 u1) then show ?thesis using Cons.prems by (intro Cons.IH)
  next
    case (leave subs e1 u1)
    from Cons.IH[OF leave(3) leave_one_distinct[OF Cons.prems(2)]] show ?thesis .
  qed
qed

subsection \<open>Leaving every room\<close>

text \<open>With distinct keys, the loop of \<^verbatim>\<open>disconnect\<close> over the snapshot of the directory
  lists the rooms that hold the connection and leaves the directory \<open>without\<close> it.\<close>

lemma update_at:
  "k \<notin> fst ` set pre \<Longrightarrow> AList.update k v (pre @ (k, x) # post) = pre @ (k, v) # post"
  by (induction pre) auto

lemma delete_at:
  "k \<notin> fst ` set pre \<Longrightarrow> k \<notin> fst ` set post
    \<Longrightarrow> AList.delete k (pre @ (k, x) # post) = pre @ post"
  by (induction pre) auto

lemma leave_rooms_exact:
  assumes "distinct (map fst (pre @ items))"
  shows "leave_rooms ws items (pre @ items)
         = (map fst (filter (\<lambda>(r, subs). ws \<in> subs) items), pre @ without ws items)"
  using assms
proof (induction items arbitrary: pre)
  case Nil then show ?case by (simp add: without_def)
next
  case (Cons p items)
  obtain r subs where p: "p = (r, subs)" by (cases p) auto
  from Cons.prems p have notin: "r \<notin> fst ` set pre" "r \<notin> fst ` set items"
    and d: "distinct (map fst pre)" "distinct (map fst items)"
    "fst ` set pre \<inter> fst ` set items = {}"
    by auto
  show ?case
  proof (cases "ws \<in> subs")
    case False
    have "distinct (map fst ((pre @ [(r, subs)]) @ items))" using Cons.prems p by simp
    from Cons.IH[OF this] False show ?thesis
      by (auto simp: p without_def)
  next
    case True
    show ?thesis
    proof (cases "subs - {ws} = {}")
      case e: True
      then have eq: "subs = {ws}" using True by auto
      have del: "AList.delete r (pre @ (r, subs) # items) = pre @ items"
        using notin by (rule delete_at)
      have "distinct (map fst (pre @ items))" using d by auto
      from Cons.IH[OF this] True e show ?thesis
        by (simp add: p del) (simp add: without_def eq)
    next
      case ne: False
      then have neq: "subs \<noteq> {ws}" by auto
      have upd: "AList.update r (subs - {ws}) (pre @ (r, subs) # items)
                 = (pre @ [(r, subs - {ws})]) @ items"
        using notin(1) by (simp add: update_at)
      have "distinct (map fst ((pre @ [(r, subs - {ws})]) @ items))" using Cons.prems p by simp
      from Cons.IH[OF this] True ne show ?thesis
        by (simp add: p upd del: append_assoc) (simp add: without_def neq)
    qed
  qed
qed

lemma subscribers_of_without:
  "distinct (map fst rooms) \<Longrightarrow> subscribers_of (without ws rooms) r = subscribers_of rooms r - {ws}"
proof (induction rooms)
  case Nil then show ?case by (simp add: without_def subscribers_of_def)
next
  case (Cons p rooms)
  obtain k subs where p: "p = (k, subs)" by (cases p) auto
  from Cons.prems p have k: "k \<notin> fst ` set rooms" and d: "distinct (map fst rooms)" by auto
  have none: "map_of (without ws rooms) k = None"
    using k by (auto simp: without_def map_of_eq_None_iff image_iff)
  have none': "map_of rooms k = None" using k by (simp add: map_of_eq_None_iff)
  show ?case
  proof (cases "r = k")
    case True
    then show ?thesis using none none'
      by (auto simp: p without_def subscribers_of_def split: option.splits)
  next
    case False
    then show ?thesis using Cons.IH[OF d]
      by (auto simp: p without_def subscribers_of_def split: option.splits)
  qed
qed

lemma disconnect_exact:
  assumes "USERS s ws = Some name" "name \<noteq> []" "distinct (map fst (ROOMS s))"
    and "s' = s\<lparr>USERS := (USERS s)(ws := None), USERNAMES := USERNAMES s - {name},
                 ROOMS := without ws (ROOMS s)\<rparr>"
  shows "disconnect ws s
         = (concat (map (\<lambda>r. broadcast r (Leave r name) None s' @ broadcast_room_update r s')
                      (rooms_of ws s)), s')"
  using assms leave_rooms_exact[of "[]" "ROOMS s" ws]
  by (simp add: disconnect_def Let_def rooms_of_def)

subsection \<open>What one frame changes\<close>

text \<open>A frame leaves the state as it is, or logs a new name in, or runs one of the two
  loops for a connection that is logged in, or writes a log file.\<close>

lemma handle_login_state:
  assumes "handle_login ws data s = (e, evs, s')"
  shows "s' = s \<or> (\<exists>name. name \<noteq> [] \<and> name \<notin> USERNAMES s
          \<and> s' = s\<lparr>USERS := (USERS s)(ws \<mapsto> name), USERNAMES := insert name (USERNAMES s)\<rparr>)"
  using assms by (auto simp: handle_login_def Let_def split: jval.splits if_splits)

lemma handle_subscribe_state:
  assumes "handle_subscribe ws data s = (e, evs, s')"
  shows "s' = s \<or> (\<exists>name items e1 n1. USERS s ws = Some name
          \<and> subscribe_loop ws name items s = (e1, n1, s'))"
  using assms
  by (auto simp: handle_subscribe_def Let_def split: if_splits option.splits prod.splits)

lemma handle_unsubscribe_state:
  assumes "handle_unsubscribe ws data s = (e, evs, s')"
  shows "s' = s \<or> (\<exists>name items e1 v1 u1. USERS s ws = Some name
          \<and> unsubscribe_loop ws name items s = (e1, v1, u1, s'))"
  using assms
  by (auto simp: handle_unsubscribe_def Let_def split: if_splits option.splits prod.splits)

lemma handle_publish_state:
  assumes "handle_publish ws data now s = (e, evs, s')"
  shows "s' = s \<or> (\<exists>x. s' = s\<lparr>LOG_DIR := x\<rparr>)"
  using assms
  by (auto simp: handle_publish_def append_room_log_def Let_def split: if_splits sum.splits)

lemma after_state: "after res = (fl, evs, s') \<Longrightarrow> \<exists>e. res = (e, evs, s')"
  by (auto simp: after_def split: prod.splits option.splits)

lemma handler_step_state:
  assumes "handler_step ws raw now s = (fl, evs, s')"
  shows "s' = s
    \<or> (\<exists>name. USERS s ws = None \<and> name \<noteq> [] \<and> name \<notin> USERNAMES s
          \<and> s' = s\<lparr>USERS := (USERS s)(ws \<mapsto> name), USERNAMES := insert name (USERNAMES s)\<rparr>)
    \<or> (\<exists>name items e1 n1. USERS s ws = Some name
          \<and> subscribe_loop ws name items s = (e1, n1, s'))
    \<or> (\<exists>name items e1 v1 u1. USERS s ws = Some name
          \<and> unsubscribe_loop ws name items s = (e1, v1, u1, s'))
    \<or> (\<exists>x. s' = s\<lparr>LOG_DIR := x\<rparr>)"
proof (cases raw)
  case Invalid
  with assms show ?thesis by (simp add: handler_step_def)
next
  case (Fatal e)
  with assms show ?thesis by (simp add: handler_step_def)
next
  case (Data data)
  let ?a = "data ''action''"
  consider (gate) "?a \<noteq> Some (JStr ''login'')" "USERS s ws = None"
    | (relogin) "?a = Some (JStr ''login'')" "USERS s ws \<noteq> None"
    | (login) "?a = Some (JStr ''login'')" "USERS s ws = None"
    | (sub) "?a = Some (JStr ''subscribe'')" "USERS s ws \<noteq> None"
    | (unsub) "?a = Some (JStr ''unsubscribe'')" "USERS s ws \<noteq> None"
    | (pub) "?a = Some (JStr ''publish'')" "USERS s ws \<noteq> None"
    | (other) "?a \<noteq> Some (JStr ''login'')" "?a \<noteq> Some (JStr ''subscribe'')"
        "?a \<noteq> Some (JStr ''unsubscribe'')" "?a \<noteq> Some (JStr ''publish'')"
        "USERS s ws \<noteq> None"
    by blast
  then show ?thesis
  proof cases
    case gate with assms Data show ?thesis by (simp add: handler_step_def)
  next
    case relogin with assms Data show ?thesis by (simp add: handler_step_def)
  next
    case login
    with assms Data have "after (handle_login ws data s) = (fl, evs, s')"
      by (simp add: handler_step_def)
    then obtain e where "handle_login ws data s = (e, evs, s')" by (auto dest: after_state)
    from handle_login_state[OF this] login(2) show ?thesis by auto
  next
    case sub
    with assms Data have "after (handle_subscribe ws data s) = (fl, evs, s')"
      by (simp add: handler_step_def)
    then obtain e where "handle_subscribe ws data s = (e, evs, s')"
      by (auto dest: after_state)
    from handle_subscribe_state[OF this] show ?thesis by auto
  next
    case unsub
    with assms Data have "after (handle_unsubscribe ws data s) = (fl, evs, s')"
      by (simp add: handler_step_def)
    then obtain e where "handle_unsubscribe ws data s = (e, evs, s')"
      by (auto dest: after_state)
    from handle_unsubscribe_state[OF this] show ?thesis by auto
  next
    case pub
    with assms Data have "after (handle_publish ws data now s) = (fl, evs, s')"
      by (simp add: handler_step_def)
    then obtain e where "handle_publish ws data now s = (e, evs, s')"
      by (auto dest: after_state)
    from handle_publish_state[OF this] show ?thesis by auto
  next
    case other
    with assms Data have "s' = s" by (auto simp: handler_step_def Let_def split: if_splits)
    then show ?thesis by simp
  qed
qed

subsection \<open>No room without subscribers\<close>

lemma no_empty_room_step:
  assumes "handler_step ws raw now s = (fl, evs, s')" and "no_empty_room s"
  shows "no_empty_room s'"
proof -
  let ?P = "\<lambda>(r, subs :: conn set). subs \<noteq> {}"
  have P: "list_all ?P (ROOMS s)" using assms(2) by (simp add: no_empty_room_def)
  from handler_step_state[OF assms(1)] show ?thesis
  proof (elim disjE exE conjE)
    assume "s' = s" with assms(2) show ?thesis by simp
  next
    fix name assume "s' = s\<lparr>USERS := (USERS s)(ws \<mapsto> name), USERNAMES := insert name (USERNAMES s)\<rparr>"
    with assms(2) show ?thesis by (simp add: no_empty_room_def)
  next
    fix name items e1 n1 assume "subscribe_loop ws name items s = (e1, n1, s')"
    from subscribe_loop_list_all[OF this P] show ?thesis by (simp add: no_empty_room_def)
  next
    fix name items e1 v1 u1 assume "unsubscribe_loop ws name items s = (e1, v1, u1, s')"
    from unsubscribe_loop_list_all[OF this P] show ?thesis by (simp add: no_empty_room_def)
  next
    fix x assume "s' = s\<lparr>LOG_DIR := x\<rparr>"
    with assms(2) show ?thesis by (simp add: no_empty_room_def)
  qed
qed

lemma leave_rooms_list_all:
  assumes "list_all P items" and "list_all P rooms"
    and B: "\<And>r X. P (r, X) \<Longrightarrow> X - {ws} \<noteq> {} \<Longrightarrow> P (r, X - {ws})"
  shows "list_all P (snd (leave_rooms ws items rooms))"
  using assms(1,2)
proof (induction items arbitrary: rooms)
  case Nil then show ?case by simp
next
  case (Cons p items)
  obtain r subs where p: "p = (r, subs)" by (cases p) auto
  show ?case
  proof (cases "ws \<in> subs")
    case False
    with Cons p show ?thesis by simp
  next
    case True
    show ?thesis
    proof (cases "subs - {ws} = {}")
      case e: True
      have "list_all P (AList.delete r rooms)" using Cons.prems by (simp add: list_all_delete)
      with Cons.IH[of "AList.delete r rooms"] Cons.prems(1)
      have "list_all P (snd (leave_rooms ws items (AList.delete r rooms)))" by simp
      then show ?thesis using True e by (auto simp: p split: prod.splits)
    next
      case ne: False
      have "P (r, subs - {ws})" using Cons.prems(1) ne by (intro B) (simp_all add: p)
      then have "list_all P (AList.update r (subs - {ws}) rooms)"
        using Cons.prems by (simp add: list_all_update)
      with Cons.IH[of "AList.update r (subs - {ws}) rooms"] Cons.prems(1)
      have "list_all P (snd (leave_rooms ws items (AList.update r (subs - {ws}) rooms)))"
        by simp
      then show ?thesis using True ne by (auto simp: p split: prod.splits)
    qed
  qed
qed

lemma no_empty_room_disconnect:
  assumes "disconnect ws s = (evs, s')" and "no_empty_room s"
  shows "no_empty_room s'"
proof -
  let ?P = "\<lambda>(r, subs :: conn set). subs \<noteq> {}"
  have P: "list_all ?P (ROOMS s)" using assms(2) by (simp add: no_empty_room_def)
  have "list_all ?P (snd (leave_rooms ws (ROOMS s) (ROOMS s)))"
    by (rule leave_rooms_list_all[OF P P]) auto
  with assms show ?thesis
    by (auto simp: disconnect_def Let_def no_empty_room_def split: option.splits if_splits prod.splits)
qed

lemma reachable_no_empty_room: "reachable s \<Longrightarrow> no_empty_room s"
proof (induction rule: reachable.induct)
  case (boot logs rfail wfail)
  show ?case by (simp add: no_empty_room_def start_def)
next
  case (frame s ws raw now fl evs s')
  then show ?case by (auto intro: no_empty_room_step)
next
  case (closed s ws evs s')
  then show ?case by (auto intro: no_empty_room_disconnect)
next
  case (weather s rfail wfail)
  then show ?case by (simp add: no_empty_room_def)
qed

subsection \<open>The registry and the rooms together\<close>

text \<open>Every reachable state is \<open>consistent\<close>: names are not empty, \<open>USERNAMES\<close> holds the
  names of \<open>USERS\<close>, each once, and the rooms have distinct names and non-empty sets of
  logged-in connections.\<close>

lemma registry_ok_iff:
  "registry_ok s \<longleftrightarrow>
     (\<forall>u. u \<in> USERNAMES s \<longleftrightarrow> (\<exists>ws. USERS s ws = Some u))
     \<and> (\<forall>w1 w2 u. USERS s w1 = Some u \<and> USERS s w2 = Some u \<longrightarrow> w1 = w2)"
  by (auto simp: registry_ok_def ran_def inj_on_def dom_def)

lemma registry_ok_login:
  assumes g: "registry_ok s" and u: "USERS s ws = None" and f: "name \<notin> USERNAMES s"
  shows "registry_ok (s\<lparr>USERS := (USERS s)(ws \<mapsto> name), USERNAMES := insert name (USERNAMES s)\<rparr>)"
proof -
  from g have a: "\<And>u. u \<in> USERNAMES s \<longleftrightarrow> (\<exists>w. USERS s w = Some u)"
    and b: "\<And>w1 w2 u. USERS s w1 = Some u \<Longrightarrow> USERS s w2 = Some u \<Longrightarrow> w1 = w2"
    unfolding registry_ok_iff by blast+
  have fresh: "\<And>w. USERS s w \<noteq> Some name" using a f by blast
  show ?thesis
    unfolding registry_ok_iff
  proof (intro conjI allI impI)
    fix x
    show "x \<in> USERNAMES (s\<lparr>USERS := (USERS s)(ws \<mapsto> name), USERNAMES := insert name (USERNAMES s)\<rparr>)
      \<longleftrightarrow> (\<exists>w. USERS (s\<lparr>USERS := (USERS s)(ws \<mapsto> name), USERNAMES := insert name (USERNAMES s)\<rparr>) w = Some x)"
    proof (cases "x = name")
      case True then show ?thesis by auto
    next
      case False
      have "(\<exists>w. USERS s w = Some x) \<longleftrightarrow> (\<exists>w. w \<noteq> ws \<and> USERS s w = Some x)"
        using u by (metis option.distinct(1))
      with False a[of x] show ?thesis by auto
    qed
  next
    fix w1 w2 x
    assume "USERS (s\<lparr>USERS := (USERS s)(ws \<mapsto> name), USERNAMES := insert name (USERNAMES s)\<rparr>) w1 = Some x
      \<and> USERS (s\<lparr>USERS := (USERS s)(ws \<mapsto> name), USERNAMES := insert name (USERNAMES s)\<rparr>) w2 = Some x"
    then show "w1 = w2" using b fresh by (auto split: if_splits)
  qed
qed

lemma registry_ok_logout:
  assumes g: "registry_ok s" and u: "USERS s ws = Some name"
  shows "registry_ok (s\<lparr>USERS := (USERS s)(ws := None), USERNAMES := USERNAMES s - {name},
                        ROOMS := x\<rparr>)"
proof -
  from g have a: "\<And>u. u \<in> USERNAMES s \<longleftrightarrow> (\<exists>w. USERS s w = Some u)"
    and b: "\<And>w1 w2 u. USERS s w1 = Some u \<Longrightarrow> USERS s w2 = Some u \<Longrightarrow> w1 = w2"
    unfolding registry_ok_iff by blast+
  show ?thesis
    unfolding registry_ok_iff
  proof (intro conjI allI impI)
    fix y
    have "(\<exists>w. w \<noteq> ws \<and> USERS s w = Some y) \<longleftrightarrow> y \<noteq> name \<and> (\<exists>w. USERS s w = Some y)"
      using b[OF u] u by (metis option.inject)
    with a[of y]
    show "y \<in> USERNAMES (s\<lparr>USERS := (USERS s)(ws := None), USERNAMES := USERNAMES s - {name}, ROOMS := x\<rparr>)
      \<longleftrightarrow> (\<exists>w. USERS (s\<lparr>USERS := (USERS s)(ws := None), USERNAMES := USERNAMES s - {name}, ROOMS := x\<rparr>) w = Some y)"
      by auto
  next
    fix w1 w2 y
    assume "USERS (s\<lparr>USERS := (USERS s)(ws := None), USERNAMES := USERNAMES s - {name}, ROOMS := x\<rparr>) w1 = Some y
      \<and> USERS (s\<lparr>USERS := (USERS s)(ws := None), USERNAMES := USERNAMES s - {name}, ROOMS := x\<rparr>) w2 = Some y"
    then show "w1 = w2" using b by (auto split: if_splits)
  qed
qed

lemma rooms_ok_iff:
  "rooms_ok s \<longleftrightarrow> distinct (map fst (ROOMS s))
     \<and> list_all (\<lambda>(r, subs). subs \<noteq> {} \<and> subs \<subseteq> dom (USERS s)) (ROOMS s)"
  by (simp add: rooms_ok_def)

lemma consistent_login:
  assumes "consistent s" "USERS s ws = None" "name \<noteq> []" "name \<notin> USERNAMES s"
  shows "consistent (s\<lparr>USERS := (USERS s)(ws \<mapsto> name), USERNAMES := insert name (USERNAMES s)\<rparr>)"
proof -
  from assms have n: "names_given s" and g: "registry_ok s" and r: "rooms_ok s"
    by (simp_all add: consistent_def)
  let ?s' = "s\<lparr>USERS := (USERS s)(ws \<mapsto> name), USERNAMES := insert name (USERNAMES s)\<rparr>"
  have "names_given ?s'" using n assms(3) by (simp add: names_given_def)
  moreover have "registry_ok ?s'"
    using g assms(2,4) by (rule registry_ok_login)
  moreover have "rooms_ok ?s'"
    using r by (auto simp: rooms_ok_def list_all_iff)
  ultimately show ?thesis by (simp add: consistent_def)
qed

lemma consistent_rooms:
  assumes "consistent s" "s' = s\<lparr>ROOMS := ROOMS s'\<rparr>" "distinct (map fst (ROOMS s'))"
    "list_all (\<lambda>(r, subs). subs \<noteq> {} \<and> subs \<subseteq> dom (USERS s)) (ROOMS s')"
  shows "consistent s'"
proof -
  have "USERS s' = USERS s" "USERNAMES s' = USERNAMES s"
    using arg_cong[OF assms(2), of USERS] arg_cong[OF assms(2), of USERNAMES] by simp_all
  with assms(1,3,4) show ?thesis
    by (simp add: consistent_def names_given_def registry_ok_def rooms_ok_def)
qed

lemma consistent_subscribe_loop:
  assumes "consistent s" "USERS s ws = Some name" "subscribe_loop ws name items s = (evs, newly, s')"
  shows "consistent s'"
proof -
  let ?P = "\<lambda>(r, subs). subs \<noteq> {} \<and> subs \<subseteq> dom (USERS s)"
  from assms(1) have d: "distinct (map fst (ROOMS s))" and P: "list_all ?P (ROOMS s)"
    by (simp_all add: consistent_def rooms_ok_def)
  have "list_all ?P (ROOMS s')"
    by (rule subscribe_loop_list_all[OF assms(3) P]) (use assms(2) in auto)
  with assms(1) subscribe_loop_frame[OF assms(3)] subscribe_loop_distinct[OF assms(3) d]
  show ?thesis by (rule consistent_rooms)
qed

lemma consistent_unsubscribe_loop:
  assumes "consistent s" "unsubscribe_loop ws name items s = (e, evs, unsubscribed, s')"
  shows "consistent s'"
proof -
  let ?P = "\<lambda>(r, subs). subs \<noteq> {} \<and> subs \<subseteq> dom (USERS s)"
  from assms(1) have d: "distinct (map fst (ROOMS s))" and P: "list_all ?P (ROOMS s)"
    by (simp_all add: consistent_def rooms_ok_def)
  have "list_all ?P (ROOMS s')"
    by (rule unsubscribe_loop_list_all[OF assms(2) P]) auto
  with assms(1) unsubscribe_loop_frame[OF assms(2)] unsubscribe_loop_distinct[OF assms(2) d]
  show ?thesis by (rule consistent_rooms)
qed

lemma consistent_step:
  assumes "handler_step ws raw now s = (fl, evs, s')" and "consistent s"
  shows "consistent s'"
  using handler_step_state[OF assms(1)]
proof (elim disjE exE conjE)
  assume "s' = s" with assms(2) show ?thesis by simp
next
  fix name
  assume "USERS s ws = None" "name \<noteq> []" "name \<notin> USERNAMES s"
    "s' = s\<lparr>USERS := (USERS s)(ws \<mapsto> name), USERNAMES := insert name (USERNAMES s)\<rparr>"
  with assms(2) show ?thesis by (simp add: consistent_login)
next
  fix name items e1 n1
  assume "USERS s ws = Some name" "subscribe_loop ws name items s = (e1, n1, s')"
  with assms(2) show ?thesis by (rule consistent_subscribe_loop)
next
  fix name items e1 v1 u1
  assume "unsubscribe_loop ws name items s = (e1, v1, u1, s')"
  with assms(2) show ?thesis by (rule consistent_unsubscribe_loop)
next
  fix x assume "s' = s\<lparr>LOG_DIR := x\<rparr>"
  with assms(2) show ?thesis
    by (simp add: consistent_def names_given_def registry_ok_def rooms_ok_def)
qed

lemma distinct_without: "distinct (map fst rooms) \<Longrightarrow> distinct (map fst (without ws rooms))"
proof -
  have "map fst (without ws rooms) = map fst (filter (\<lambda>(r, subs). subs \<noteq> {ws}) rooms)"
    by (simp add: without_def case_prod_beta comp_def)
  then show "distinct (map fst rooms) \<Longrightarrow> ?thesis" by (simp add: distinct_map_filter)
qed

lemma consistent_disconnect:
  assumes "disconnect ws s = (evs, s')" and "consistent s"
  shows "consistent s'"
proof (cases "USERS s ws")
  case None
  with assms show ?thesis by (simp add: disconnect_def)
next
  case (Some name)
  from assms(2) have n: "names_given s" and g: "registry_ok s" and r: "rooms_ok s"
    by (simp_all add: consistent_def)
  from n Some have ne: "name \<noteq> []" by (auto simp: names_given_def)
  from r have d: "distinct (map fst (ROOMS s))" by (simp add: rooms_ok_def)
  let ?s' = "s\<lparr>USERS := (USERS s)(ws := None), USERNAMES := USERNAMES s - {name},
                 ROOMS := without ws (ROOMS s)\<rparr>"
  from disconnect_exact[OF Some ne d refl] assms(1) have s': "s' = ?s'" by simp
  have "names_given ?s'" using n by (simp add: names_given_def)
  moreover have "registry_ok ?s'"
    using g Some by (rule registry_ok_logout)
  moreover have "rooms_ok ?s'"
    using r distinct_without[OF d, of ws]
    by (auto simp: rooms_ok_def list_all_iff without_def)
  ultimately show ?thesis by (simp add: consistent_def s')
qed

lemma reachable_consistent: "reachable s \<Longrightarrow> consistent s"
proof (induction rule: reachable.induct)
  case (boot logs rfail wfail)
  show ?case
    by (simp add: consistent_def names_given_def registry_ok_def rooms_ok_def start_def)
next
  case (frame s ws raw now fl evs s')
  then show ?case by (auto intro: consistent_step)
next
  case (closed s ws evs s')
  then show ?case by (auto intro: consistent_disconnect)
next
  case (weather s rfail wfail)
  then show ?case
    by (simp add: consistent_def names_given_def registry_ok_def rooms_ok_def)
qed

subsection \<open>Two states the server reaches\<close>

lemma reach_lobby: "reachable lobby"
proof -
  let ?s0 = "start [''general.txt'' \<mapsto> [Json_line hello]] (\<lambda>p. False) (\<lambda>p. False)
               (\<lambda>p. False)"
  let ?s1 = "?s0\<lparr>USERS := [1 \<mapsto> ''alice''], USERNAMES := {''alice''}\<rparr>"
  let ?s2 = "?s1\<lparr>USERS := [1 \<mapsto> ''alice'', 2 \<mapsto> ''bob''], USERNAMES := {''alice'', ''bob''}\<rparr>"
  have r0: "reachable ?s0" by (rule reachable.boot)
  have "handler_step 1 (Data (login_request ''alice'')) 0 ?s0 = (Continue, [Send 1 (Ok ''login'')], ?s1)"
    by (simp add: handler_step_def handle_login_def after_def req_defs get_or_blank_def start_def
        txt_defs Let_def)
  from reachable.frame[OF r0 this] have r1: "reachable ?s1" .
  have "handler_step 2 (Data (login_request ''bob'')) 0 ?s1 = (Continue, [Send 2 (Ok ''login'')], ?s2)"
    by (simp add: handler_step_def handle_login_def after_def req_defs get_or_blank_def start_def
        txt_defs insert_commute Let_def)
  from reachable.frame[OF r1 this] have r2: "reachable ?s2" .
  have "handler_step 2 (Data (subscribe_request [''general''])) 0 ?s2
        = (Continue, [Send 2 (Subscribed [''general'']), Send 2 (History ''general'' [hello]),
                      Gather {2} (Room_update ''general'' [''bob''])], lobby)"
    by (simp add: handler_step_def handle_subscribe_def req_defs or_empty_list_def start_def
        txt_defs subscribers_of_def broadcast_def replay_def tail_room_log_def slice_from_def
        broadcast_room_update_def lobby_def user_list_def List.map_filter_def Let_def
        after_def)
  from reachable.frame[OF r2 this] show ?thesis .
qed

lemma subscribe_in_lobby:
  "handler_step 1 (Data (subscribe_request [''general''])) 0 lobby
     = (Continue,
        [Gather {2} (Join ''general'' ''alice''), Send 1 (Subscribed [''general'']),
         Send 1 (History ''general'' [hello]),
         Gather {1, 2} (Room_update ''general'' [''alice'', ''bob''])],
        both_in)"
proof -
  have u: "user_list [Suc 0 \<mapsto> ''alice'', 2 \<mapsto> ''bob''] {Suc 0, 2} = [''alice'', ''bob'']"
    by code_simp
  show ?thesis
    by (simp add: handler_step_def handle_subscribe_def req_defs or_empty_list_def txt_defs
        subscribers_of_def broadcast_def replay_def tail_room_log_def slice_from_def
        broadcast_room_update_def lobby_def both_in_def Let_def after_def u)
qed

lemma reach_both_in: "reachable both_in"
  by (rule reachable.frame[OF reach_lobby subscribe_in_lobby])

subsection \<open>Rooms are never empty\<close>

text \<open>
  C7. In every state the server can reach, no room of the directory has an empty set of
  subscribers, so no key is bound to the empty set. Each step keeps this by itself, from
  any state that has the property: a frame handled by the session handler (subscribe puts
  the connection into the set it finds or creates; unsubscribe removes the room's entry
  when the set has become empty) and \<^verbatim>\<open>disconnect\<close> (which removes the entry of every room
  that the connection was alone in).
\<close>

theorem C7_no_empty_room:
  "(reachable s \<longrightarrow> no_empty_room s \<and> (\<forall>r. map_of (ROOMS s) r \<noteq> Some {}))
   \<and> (no_empty_room s \<and> handler_step ws raw now s = (fl, evs, s') \<longrightarrow> no_empty_room s')
   \<and> (no_empty_room s \<and> disconnect ws s = (evs, s') \<longrightarrow> no_empty_room s')"
proof -
  have "\<forall>r. map_of (ROOMS s) r \<noteq> Some {}" if "no_empty_room s"
    using that by (auto simp: no_empty_room_def dest: map_of_list_all)
  then show ?thesis
    using reachable_no_empty_room no_empty_room_step no_empty_room_disconnect by blast
qed

text \<open>bob is alone in the room general of the lobby: when he unsubscribes, and also when
  his session ends, the directory has no room left.\<close>

theorem C7_no_empty_room_witness:
  "reachable lobby \<and> no_empty_room lobby \<and> map_of (ROOMS lobby) ''general'' = Some {2}
   \<and> ROOMS (snd (snd (handler_step 2 (Data (unsubscribe_request [''general''])) 0 lobby))) = []
   \<and> no_empty_room (snd (snd (handler_step 2 (Data (unsubscribe_request [''general''])) 0 lobby)))
   \<and> ROOMS (snd (disconnect 2 lobby)) = []
   \<and> no_empty_room (snd (disconnect 2 lobby))"
proof -
  let ?u = "handler_step 2 (Data (unsubscribe_request [''general''])) 0 lobby"
  note c = C7_no_empty_room[of lobby 2 "Data (unsubscribe_request [''general''])" 0
      "fst ?u" "fst (snd ?u)" "snd (snd ?u)"]
  note d = C7_no_empty_room[of lobby 2 _ _ _ "fst (disconnect 2 lobby)" "snd (disconnect 2 lobby)"]
  have n: "no_empty_room lobby" using c reach_lobby by blast
  have n1: "no_empty_room (snd (snd ?u))" using c n by simp
  have n2: "no_empty_room (snd (disconnect 2 lobby))" using d n by simp
  have r1: "ROOMS (snd (snd ?u)) = []"
    by (simp add: handler_step_def handle_unsubscribe_def after_def req_defs or_empty_list_def
        lobby_def Let_def broadcast_def broadcast_room_update_def subscribers_of_def)
  have r2: "ROOMS (snd (disconnect 2 lobby)) = []"
    by (simp add: disconnect_def lobby_def Let_def)
  have m: "map_of (ROOMS lobby) ''general'' = Some {2}" by (simp add: lobby_def)
  from reach_lobby n n1 n2 r1 r2 m show ?thesis by blast
qed

subsection \<open>Login\<close>

text \<open>
  C4. For a user name that is a string (or is missing, which counts as the empty string),
  \<^verbatim>\<open>handle_login\<close> succeeds exactly when the stripped name is not empty and not in
  \<open>USERNAMES\<close>: it then maps the connection to the name, adds the name to the set and
  answers ok; otherwise it answers with the error for an empty or for a taken name and
  changes nothing. This is what the session handler does with a login frame of a
  connection that has not logged in. In every state the server can reach, a name is in
  \<open>USERNAMES\<close> exactly when exactly one connection is mapped to it, and no two connections
  are mapped to the same name.
\<close>

theorem C4_login_claim:
  "((data ''username'' = Some (JStr u) \<or> (data ''username'' = None \<and> u = [])) \<longrightarrow>
      handle_login ws data s
        = (if strip u \<noteq> [] \<and> strip u \<notin> USERNAMES s
           then (None, [Send ws (Ok ''login'')],
                 s\<lparr>USERS := (USERS s)(ws \<mapsto> strip u),
                    USERNAMES := insert (strip u) (USERNAMES s)\<rparr>)
           else (None,
                 [Send ws (Error (Some ''login'')
                    (if strip u = [] then ''Username required'' else ''Username taken''))],
                 s)))
   \<and> (USERS s ws = None \<and> data ''action'' = Some (JStr ''login'')
        \<and> (data ''username'' = Some (JStr u) \<or> (data ''username'' = None \<and> u = [])) \<longrightarrow>
      handler_step ws (Data data) now s
        = (Continue, fst (snd (handle_login ws data s)), snd (snd (handle_login ws data s))))
   \<and> (reachable s \<longrightarrow>
        (\<forall>name. name \<in> USERNAMES s \<longleftrightarrow> (\<exists>!w. USERS s w = Some name))
        \<and> (\<forall>w1 w2 name. USERS s w1 = Some name \<and> USERS s w2 = Some name \<longrightarrow> w1 = w2))"
proof -
  have s0: "strip [] = []" by (simp add: strip_def)
  have a: "handle_login ws data s
        = (if strip u \<noteq> [] \<and> strip u \<notin> USERNAMES s
           then (None, [Send ws (Ok ''login'')],
                 s\<lparr>USERS := (USERS s)(ws \<mapsto> strip u),
                    USERNAMES := insert (strip u) (USERNAMES s)\<rparr>)
           else (None,
                 [Send ws (Error (Some ''login'')
                    (if strip u = [] then ''Username required'' else ''Username taken''))],
                 s))"
    if "data ''username'' = Some (JStr u) \<or> (data ''username'' = None \<and> u = [])"
    using that by (auto simp: handle_login_def get_or_blank_def Let_def s0)
  have b: "handler_step ws (Data data) now s
        = (Continue, fst (snd (handle_login ws data s)), snd (snd (handle_login ws data s)))"
    if "USERS s ws = None" "data ''action'' = Some (JStr ''login'')"
      "data ''username'' = Some (JStr u) \<or> (data ''username'' = None \<and> u = [])"
    using that a[OF that(3)] by (simp add: handler_step_def after_def)
  have c: "(\<forall>name. name \<in> USERNAMES s \<longleftrightarrow> (\<exists>!w. USERS s w = Some name))
        \<and> (\<forall>w1 w2 name. USERS s w1 = Some name \<and> USERS s w2 = Some name \<longrightarrow> w1 = w2)"
    if "reachable s"
  proof -
    from reachable_consistent[OF that] have "registry_ok s" by (simp add: consistent_def)
    then show ?thesis unfolding registry_ok_iff by blast
  qed
  from a b c show ?thesis by blast
qed

text \<open>In the lobby, carol's login succeeds, a second bob and a blank name are refused,
  and bob is in the set with exactly one connection.\<close>

theorem C4_login_claim_witness:
  "reachable lobby
   \<and> handle_login 3 (login_request '' carol '') lobby
      = (None, [Send 3 (Ok ''login'')],
         lobby\<lparr>USERS := (USERS lobby)(3 \<mapsto> ''carol''),
               USERNAMES := insert ''carol'' (USERNAMES lobby)\<rparr>)
   \<and> handler_step 3 (Data (login_request ''bob'')) 0 lobby
      = (Continue, [Send 3 (Error (Some ''login'') ''Username taken'')], lobby)
   \<and> handler_step 3 (Data (login_request ''  '')) 0 lobby
      = (Continue, [Send 3 (Error (Some ''login'') ''Username required'')], lobby)
   \<and> (''bob'' \<in> USERNAMES lobby) = (\<exists>!w. USERS lobby w = Some ''bob'')"
proof -
  have sc: "strip '' carol '' = ''carol''" and sb: "strip ''bob'' = ''bob''"
    and se: "strip ''  '' = []"
    by (simp_all add: strip_def isspace_def)
  have un: "USERNAMES lobby = {''alice'', ''bob''}" "USERS lobby 3 = None"
    by (simp_all add: lobby_def)
  note c1 = C4_login_claim[of "login_request '' carol ''" "'' carol ''" 3 lobby 0]
  note c2 = C4_login_claim[of "login_request ''bob''" "''bob''" 3 lobby 0]
  note c3 = C4_login_claim[of "login_request ''  ''" "''  ''" 3 lobby 0]
  have 1: "handle_login 3 (login_request '' carol '') lobby
      = (None, [Send 3 (Ok ''login'')],
         lobby\<lparr>USERS := (USERS lobby)(3 \<mapsto> ''carol''),
               USERNAMES := insert ''carol'' (USERNAMES lobby)\<rparr>)"
    using c1 by (simp add: login_request_def sc un)
  have 2: "handler_step 3 (Data (login_request ''bob'')) 0 lobby
      = (Continue, [Send 3 (Error (Some ''login'') ''Username taken'')], lobby)"
    using c2 by (simp add: login_request_def sb un)
  have 3: "handler_step 3 (Data (login_request ''  '')) 0 lobby
      = (Continue, [Send 3 (Error (Some ''login'') ''Username required'')], lobby)"
    using c3 by (simp add: login_request_def se un)
  have 4: "(''bob'' \<in> USERNAMES lobby) = (\<exists>!w. USERS lobby w = Some ''bob'')"
    using c1 reach_lobby by blast
  from reach_lobby 1 2 3 4 show ?thesis by blast
qed

subsection \<open>Cleanup\<close>

text \<open>What a connection receives from the broadcasts of \<^verbatim>\<open>disconnect\<close>, and the states the
  loop of the session handler passes through.\<close>

lemma inbox_concat: "inbox w (concat (map f rs)) = concat (map (\<lambda>r. inbox w (f r)) rs)"
  by (induction rs) (simp_all add: inbox_append)

lemma inbox_broadcast_all:
  "inbox w (broadcast r p None s) = (if w \<in> subscribers_of (ROOMS s) r then [p] else [])"
  by (auto simp: broadcast_def Let_def)

lemma inbox_room_update:
  "inbox w (broadcast_room_update r s)
   = (if w \<in> subscribers_of (ROOMS s) r
      then [Room_update r (user_list (USERS s) (subscribers_of (ROOMS s) r))] else [])"
  by (auto simp: broadcast_room_update_def Let_def inbox_broadcast_all)

lemma handler_loop_reachable:
  "reachable s \<Longrightarrow> reachable (snd (handler_loop ws frames s))"
proof (induction frames arbitrary: s)
  case Nil then show ?case by simp
next
  case (Cons f frames)
  obtain raw tnow where f: "f = (raw, tnow)" by (cases f) auto
  obtain fl evs s' where st: "handler_step ws raw tnow s = (fl, evs, s')"
    by (metis prod_cases3)
  from reachable.frame[OF Cons.prems st] have r: "reachable s'" .
  show ?case
  proof (cases fl)
    case Continue
    with Cons.IH[OF r] st show ?thesis
      by (cases "handler_loop ws frames s'") (simp add: f)
  next
    case Break with r st show ?thesis by (simp add: f)
  next
    case (Raise e) with r st show ?thesis by (simp add: f)
  qed
qed

lemma handler_unfold:
  "handler ws frames s
   = (fst (handler_loop ws frames s) @ fst (disconnect ws (snd (handler_loop ws frames s))),
      snd (disconnect ws (snd (handler_loop ws frames s))))"
  by (simp add: handler_def split: prod.splits)

lemma subscribers_subset_dom:
  assumes "rooms_ok s" shows "subscribers_of (ROOMS s) r \<subseteq> dom (USERS s)"
proof (cases "map_of (ROOMS s) r")
  case None then show ?thesis by (simp add: subscribers_of_def)
next
  case (Some subs)
  from assms have "list_all (\<lambda>(r, subs). subs \<noteq> {} \<and> subs \<subseteq> dom (USERS s)) (ROOMS s)"
    by (simp add: rooms_ok_def)
  from map_of_list_all[OF this Some] Some show ?thesis by (simp add: subscribers_of_def)
qed

lemma rooms_of_subscribers:
  assumes "distinct (map fst (ROOMS s))"
  shows "r \<in> set (rooms_of ws s) \<longleftrightarrow> ws \<in> subscribers_of (ROOMS s) r"
proof -
  have "r \<in> set (rooms_of ws s) \<longleftrightarrow> (\<exists>subs. (r, subs) \<in> set (ROOMS s) \<and> ws \<in> subs)"
    by (auto simp: rooms_of_def image_iff)
  also have "\<dots> \<longleftrightarrow> (\<exists>subs. map_of (ROOMS s) r = Some subs \<and> ws \<in> subs)"
    using assms by simp
  also have "\<dots> \<longleftrightarrow> ws \<in> subscribers_of (ROOMS s) r"
    by (auto simp: subscribers_of_def split: option.splits)
  finally show ?thesis .
qed

lemma cleanup_consistent:
  assumes c: "consistent s"
  shows "USERS (snd (disconnect ws s)) = (USERS s)(ws := None)
     \<and> USERNAMES (snd (disconnect ws s))
          = (case USERS s ws of None \<Rightarrow> USERNAMES s | Some name \<Rightarrow> USERNAMES s - {name})
     \<and> (\<forall>r. subscribers_of (ROOMS (snd (disconnect ws s))) r = subscribers_of (ROOMS s) r - {ws})
     \<and> (USERS s ws = None \<longrightarrow> disconnect ws s = ([], s))
     \<and> (\<forall>name w. USERS s ws = Some name \<longrightarrow>
          inbox w (fst (disconnect ws s))
            = concat (map (\<lambda>r. if w \<in> subscribers_of (ROOMS s) r - {ws}
                                then [Leave r name,
                                      Room_update r (user_list ((USERS s)(ws := None))
                                                      (subscribers_of (ROOMS s) r - {ws}))]
                                else [])
                        (rooms_of ws s)))
     \<and> disconnect ws (snd (disconnect ws s)) = ([], snd (disconnect ws s))"
proof -
  from c have n: "names_given s" and r: "rooms_ok s" by (simp_all add: consistent_def)
  from r have d: "distinct (map fst (ROOMS s))" by (simp add: rooms_ok_def)
  show ?thesis
  proof (cases "USERS s ws")
    case None
    then have dis: "disconnect ws s = ([], s)" by (simp add: disconnect_def)
    have out: "ws \<notin> subscribers_of (ROOMS s) r" for r
      using subscribers_subset_dom[OF r, of r] None by auto
    with None dis show ?thesis by (auto simp: fun_eq_iff)
  next
    case (Some name)
    from n Some have ne: "name \<noteq> []" by (auto simp: names_given_def)
    let ?s' = "s\<lparr>USERS := (USERS s)(ws := None), USERNAMES := USERNAMES s - {name},
                 ROOMS := without ws (ROOMS s)\<rparr>"
    note ex = disconnect_exact[OF Some ne d refl]
    have subs: "subscribers_of (ROOMS ?s') r = subscribers_of (ROOMS s) r - {ws}" for r
      by (simp add: subscribers_of_without[OF d])
    have again: "disconnect ws ?s' = ([], ?s')" by (simp add: disconnect_def)
    have inb: "inbox w (fst (disconnect ws s))
            = concat (map (\<lambda>r. if w \<in> subscribers_of (ROOMS s) r - {ws}
                                then [Leave r name,
                                      Room_update r (user_list ((USERS s)(ws := None))
                                                      (subscribers_of (ROOMS s) r - {ws}))]
                                else [])
                        (rooms_of ws s))" for w
      unfolding ex fst_conv inbox_concat inbox_append inbox_broadcast_all inbox_room_update subs
      by (rule arg_cong[where f = concat], rule map_cong) auto
    show ?thesis
      using subs again inb by (simp add: ex Some)
  qed
qed

text \<open>
  C5. From every state the server can reach, \<^verbatim>\<open>disconnect\<close> of a connection removes its
  entry from \<open>USERS\<close> and its name from \<open>USERNAMES\<close>, and takes the connection out of the
  set of every room, leaving the other subscribers as they were. The rooms it was in are
  each listed once, and every other connection receives, for each of these rooms it is
  subscribed to, one leave notice followed by one membership list, and nothing else. A
  connection that never logged in is in no room, and for it \<^verbatim>\<open>disconnect\<close> does nothing. A
  second \<^verbatim>\<open>disconnect\<close> does nothing. The session handler runs \<^verbatim>\<open>disconnect\<close> once, after
  its loop, on every way out of the loop (logout, an exception, the end of the frames):
  afterwards the connection has no entry, is in no room, and another \<^verbatim>\<open>disconnect\<close>
  changes nothing.
\<close>

theorem C5_cleanup:
  assumes "reachable s"
  shows "USERS (snd (disconnect ws s)) = (USERS s)(ws := None)
     \<and> USERNAMES (snd (disconnect ws s))
          = (case USERS s ws of None \<Rightarrow> USERNAMES s | Some name \<Rightarrow> USERNAMES s - {name})
     \<and> (\<forall>r. subscribers_of (ROOMS (snd (disconnect ws s))) r = subscribers_of (ROOMS s) r - {ws})
     \<and> distinct (rooms_of ws s)
     \<and> (\<forall>r. r \<in> set (rooms_of ws s) \<longleftrightarrow> ws \<in> subscribers_of (ROOMS s) r)
     \<and> (USERS s ws = None \<longrightarrow> disconnect ws s = ([], s))
     \<and> (\<forall>name w. USERS s ws = Some name \<longrightarrow>
          inbox w (fst (disconnect ws s))
            = concat (map (\<lambda>r. if w \<in> subscribers_of (ROOMS s) r - {ws}
                                then [Leave r name,
                                      Room_update r (user_list ((USERS s)(ws := None))
                                                      (subscribers_of (ROOMS s) r - {ws}))]
                                else [])
                        (rooms_of ws s)))
     \<and> disconnect ws (snd (disconnect ws s)) = ([], snd (disconnect ws s))
     \<and> handler ws frames s
          = (fst (handler_loop ws frames s)
               @ fst (disconnect ws (snd (handler_loop ws frames s))),
             snd (disconnect ws (snd (handler_loop ws frames s))))
     \<and> USERS (snd (handler ws frames s)) ws = None
     \<and> (\<forall>r. ws \<notin> subscribers_of (ROOMS (snd (handler ws frames s))) r)
     \<and> disconnect ws (snd (handler ws frames s)) = ([], snd (handler ws frames s))"
proof -
  from reachable_consistent[OF assms] have c: "consistent s" .
  then have d: "distinct (map fst (ROOMS s))" by (simp add: consistent_def rooms_ok_def)
  have dr: "distinct (rooms_of ws s)"
    using d by (simp add: rooms_of_def distinct_map_filter)
  let ?s1 = "snd (handler_loop ws frames s)"
  from reachable_consistent[OF handler_loop_reachable[OF assms]]
  have c1: "consistent ?s1" .
  have h: "snd (handler ws frames s) = snd (disconnect ws ?s1)"
    by (simp add: handler_unfold)
  from cleanup_consistent[OF c1, of ws]
  have e: "USERS (snd (handler ws frames s)) ws = None"
    "\<forall>r. ws \<notin> subscribers_of (ROOMS (snd (handler ws frames s))) r"
    "disconnect ws (snd (handler ws frames s)) = ([], snd (handler ws frames s))"
    unfolding h by simp_all
  from cleanup_consistent[OF c, of ws] dr rooms_of_subscribers[OF d, of _ ws] e
    handler_unfold[of ws frames s]
  show ?thesis by (intro conjI) blast+
qed

text \<open>alice and bob are in the room general; alice's session ends, here by logout.\<close>

theorem C5_cleanup_witness:
  "reachable both_in
   \<and> rooms_of 1 both_in = [''general'']
   \<and> USERS (snd (disconnect 1 both_in)) = [2 \<mapsto> ''bob'']
   \<and> USERNAMES (snd (disconnect 1 both_in)) = {''bob''}
   \<and> subscribers_of (ROOMS (snd (disconnect 1 both_in))) ''general'' = {2}
   \<and> inbox 2 (fst (disconnect 1 both_in))
       = [Leave ''general'' ''alice'', Room_update ''general'' [''bob'']]
   \<and> disconnect 1 (snd (disconnect 1 both_in)) = ([], snd (disconnect 1 both_in))
   \<and> USERS (snd (handler 1 [(Data [''action'' \<mapsto> JStr ''logout''], 0)] both_in)) 1 = None
   \<and> disconnect 1 (snd (handler 1 [(Data [''action'' \<mapsto> JStr ''logout''], 0)] both_in))
       = ([], snd (handler 1 [(Data [''action'' \<mapsto> JStr ''logout''], 0)] both_in))"
proof -
  note c = C5_cleanup[OF reach_both_in, of 1 "[(Data [''action'' \<mapsto> JStr ''logout''], 0)]"]
  have ro: "rooms_of 1 both_in = [''general'']"
    by (simp add: rooms_of_def both_in_def lobby_def)
  have su: "subscribers_of (ROOMS both_in) ''general'' = {1, 2}"
    by (simp add: subscribers_of_def both_in_def lobby_def)
  have us: "USERS both_in = [1 \<mapsto> ''alice'', 2 \<mapsto> ''bob'']"
    "USERNAMES both_in = {''alice'', ''bob''}"
    by (simp_all add: both_in_def lobby_def)
  have m: "[1 \<mapsto> ''alice'', 2 \<mapsto> ''bob''](1 := None) = [2::nat \<mapsto> ''bob'']"
    by (auto simp: fun_eq_iff)
  have ul: "user_list [2 \<mapsto> ''bob''] {2} = [''bob'']" by code_simp
  have d: "{1, 2} - {1::nat} = {2}" by auto
  have 1: "USERS (snd (disconnect 1 both_in)) = [2 \<mapsto> ''bob'']"
    using c by (simp add: us m)
  have 2: "USERNAMES (snd (disconnect 1 both_in)) = {''bob''}"
    using c by (auto simp: us)
  have 3: "subscribers_of (ROOMS (snd (disconnect 1 both_in))) ''general'' = {2}"
    using c by (simp add: su d)
  have "inbox 2 (fst (disconnect 1 both_in))
        = concat (map (\<lambda>r. if 2 \<in> subscribers_of (ROOMS both_in) r - {1}
                                then [Leave r ''alice'',
                                      Room_update r (user_list ((USERS both_in)(1 := None))
                                                      (subscribers_of (ROOMS both_in) r - {1}))]
                                else [])
                        (rooms_of 1 both_in))"
    using c us(1) by simp
  then have 4: "inbox 2 (fst (disconnect 1 both_in))
       = [Leave ''general'' ''alice'', Room_update ''general'' [''bob'']]"
    by (simp only: ro list.map concat.simps su d us m ul) simp
  from c reach_both_in ro 1 2 3 4 show ?thesis by blast
qed

end
